theory Spec2Isabelle
  imports Complex_Main
begin

section \<open>Transducer loss: the kernels of transducer\_loss.py\<close>

text \<open>
  The three numba kernels and the autograd function of
  \<^verbatim>\<open>speechbrain/nnet/transducer/transducer_loss.py\<close>, over exact real arithmetic
  (\<^verbatim>\<open>float32\<close> rounding is not modelled).

  A kernel launch \<^verbatim>\<open>kernel[B, n]\<close> runs \<open>B\<close> blocks of \<open>n\<close> workers. A block only
  touches the slice \<open>[b, ...]\<close> of every buffer, so the state of a block is that slice.
  The workers of a block are interleaved by a schedule, a list of worker ids: each entry
  lets that worker run one iteration of its \<^verbatim>\<open>while\<close> loop (a failed test of the
  doorbell counter is an iteration that changes nothing), or, once its loop is over, the
  code after the loop. Nothing in the kernels orders two workers except the counters.

  The float tensors are index functions; CUDA performs no bounds check on them, and a
  read outside the declared shape returns whatever the function holds there. Indices
  into the doorbell counters, and the index \<^verbatim>\<open>T[b] - 1\<close>, can be negative or past the
  row: they go through \<open>resolve\<close>. The lengths, the labels and the blank id are
  natural numbers (the \<^verbatim>\<open>int32\<close> tensors of the source can hold negative values,
  which no claim is about). Every buffer starts as \<^verbatim>\<open>torch.zeros\<close> leaves it.
\<close>

datatype index_mode = Strict | PyWrap

datatype error = OutOfBounds | Unfinished | UnexpectedReduction string | BroadcastError

text \<open>
  Index \<open>i\<close> into an axis of size \<open>n\<close>. \<open>Strict\<close> accepts \<open>0 \<le> i < n\<close> only;
  \<open>PyWrap\<close> also counts a negative index from the end, as Python indexing does.
\<close>

definition resolve :: "index_mode \<Rightarrow> nat \<Rightarrow> int \<Rightarrow> nat option" where
  "resolve md n i =
     (if 0 \<le> i \<and> i < int n then Some (nat i)
      else if md = PyWrap \<and> - int n \<le> i \<and> i < 0 then Some (nat (int n + i))
      else None)"

text \<open>\<^verbatim>\<open>cuda.atomic.add(lock, (b, i), v)\<close>: the new row of counters and the old value.\<close>

definition atomic_add ::
  "index_mode \<Rightarrow> nat \<Rightarrow> (nat \<Rightarrow> int) \<Rightarrow> int \<Rightarrow> int \<Rightarrow> error + ((nat \<Rightarrow> int) \<times> int)" where
  "atomic_add md maxU lk i v =
     (case resolve md maxU i of
        None \<Rightarrow> Inl OutOfBounds
      | Some j \<Rightarrow> Inr (lk(j := lk j + v), lk j))"

definition log1p :: "real \<Rightarrow> real" where
  "log1p x = ln (1 + x)"

subsection \<open>cu\_kernel\_forward\<close>

text \<open>
  The slice of block \<open>b\<close>: \<open>tab\<close> is \<^verbatim>\<open>alpha[b]\<close>, \<open>lock\<close> is \<^verbatim>\<open>lock[b]\<close>, \<open>logp\<close> is
  \<^verbatim>\<open>log_p[b]\<close>; \<open>tpos u\<close> is the local variable \<^verbatim>\<open>t\<close> of worker \<open>u\<close> and \<open>fin u\<close>
  says that worker \<open>u\<close> has returned.
\<close>

record fstate =
  tab :: "nat \<times> nat \<Rightarrow> real"
  lock :: "nat \<Rightarrow> int"
  logp :: real
  tpos :: "nat \<Rightarrow> nat"
  fin :: "nat \<Rightarrow> bool"

definition finit :: fstate where
  "finit = \<lparr>tab = (\<lambda>_. 0), lock = (\<lambda>_. 0), logp = 0, tpos = (\<lambda>_. 0), fin = (\<lambda>_. False)\<rparr>"

definition cu_kernel_forward_step ::
  "index_mode \<Rightarrow> nat \<Rightarrow> nat \<Rightarrow> (nat \<times> nat \<times> nat \<times> nat \<Rightarrow> real) \<Rightarrow> (nat \<times> nat \<Rightarrow> nat) \<Rightarrow>
   (nat \<Rightarrow> nat) \<Rightarrow> (nat \<Rightarrow> nat) \<Rightarrow> nat \<Rightarrow> nat \<Rightarrow> nat \<Rightarrow> fstate \<Rightarrow> error + fstate" where
  "cu_kernel_forward_step md maxT maxU log_probs labels T U blank b u s =
     (if fin s u then Inr s
      else
        let t = tpos s u in
        if u \<le> U b \<and> t < T b then
          (if u = 0 then
             (let al = (tab s)((t, 0) :=
                         (if t = 0 then 0
                          else tab s (t - 1, 0) + log_probs (b, t - 1, 0, blank)))
              in case atomic_add md maxU (lock s) (int u + 1) (- 1) of
                   Inl e \<Rightarrow> Inl e
                 | Inr (lk, _) \<Rightarrow>
                     Inr (s\<lparr>tab := al, lock := lk, tpos := (tpos s)(u := t + 1)\<rparr>))
           else
             (case atomic_add md maxU (lock s) (int u) 0 of
                Inl e \<Rightarrow> Inl e
              | Inr (lk0, old) \<Rightarrow>
                  if old < 0 then
                    (let al = (tab s)((t, u) :=
                               (if t = 0 then
                                  tab s (0, u - 1) + log_probs (b, 0, u - 1, labels (b, u - 1))
                                else
                                  (let emit = tab s (t, u - 1)
                                                + log_probs (b, t, u - 1, labels (b, u - 1));
                                       no_emit = tab s (t - 1, u) + log_probs (b, t - 1, u, blank)
                                   in max no_emit emit + log1p (exp (- \<bar>no_emit - emit\<bar>)))))
                     in case (if u < U b then atomic_add md maxU lk0 (int u + 1) (- 1)
                              else Inr (lk0, 0)) of
                          Inl e \<Rightarrow> Inl e
                        | Inr (lk1, _) \<Rightarrow>
                            (case atomic_add md maxU lk1 (int u) 1 of
                               Inl e \<Rightarrow> Inl e
                             | Inr (lk2, _) \<Rightarrow>
                                 Inr (s\<lparr>tab := al, lock := lk2,
                                        tpos := (tpos s)(u := t + 1)\<rparr>)))
                  else Inr (s\<lparr>lock := lk0\<rparr>)))
        else if u \<le> U b \<and> u = 0 then
          (case resolve md maxT (int (T b) - 1) of
             None \<Rightarrow> Inl OutOfBounds
           | Some tlast \<Rightarrow>
               Inr (s\<lparr>logp := tab s (tlast, U b) + log_probs (b, tlast, U b, blank),
                      fin := (fin s)(u := True)\<rparr>))
        else Inr (s\<lparr>fin := (fin s)(u := True)\<rparr>))"

text \<open>
  Running the workers of a block along a schedule. Ids that are not workers of the block
  (\<open>u \<ge> n\<close>) are skipped. The launch returns when every worker has returned; a schedule
  that stops earlier is not a run of the kernel (\<open>Unfinished\<close>).
\<close>

fun run_sched :: "(nat \<Rightarrow> 's \<Rightarrow> error + 's) \<Rightarrow> nat \<Rightarrow> nat list \<Rightarrow> 's \<Rightarrow> error + 's" where
  "run_sched step n [] s = Inr s"
| "run_sched step n (u # us) s =
     (if u < n then
        (case step u s of Inl e \<Rightarrow> Inl e | Inr s' \<Rightarrow> run_sched step n us s')
      else run_sched step n us s)"

definition cu_kernel_forward ::
  "index_mode \<Rightarrow> nat \<Rightarrow> nat \<Rightarrow> (nat \<times> nat \<times> nat \<times> nat \<Rightarrow> real) \<Rightarrow> (nat \<times> nat \<Rightarrow> nat) \<Rightarrow>
   (nat \<Rightarrow> nat) \<Rightarrow> (nat \<Rightarrow> nat) \<Rightarrow> nat \<Rightarrow> nat \<Rightarrow> nat list \<Rightarrow> error + fstate" where
  "cu_kernel_forward md maxT maxU log_probs labels T U blank b sched =
     (case run_sched (cu_kernel_forward_step md maxT maxU log_probs labels T U blank b)
             maxU sched finit of
        Inl e \<Rightarrow> Inl e
      | Inr s \<Rightarrow> if (\<forall>u < maxU. fin s u) then Inr s else Inl Unfinished)"

subsection \<open>cu\_kernel\_backward\<close>

text \<open>
  The slice of block \<open>b\<close> in the backward sweep: \<open>btab\<close> is \<^verbatim>\<open>beta[b]\<close>. The local
  \<^verbatim>\<open>t\<close> of a worker starts at \<^verbatim>\<open>T[b] - 1\<close> and counts down to \<open>-1\<close>, so it is an
  \<open>int\<close>.
\<close>

record bstate =
  btab :: "nat \<times> nat \<Rightarrow> real"
  block :: "nat \<Rightarrow> int"
  blogp :: real
  btpos :: "nat \<Rightarrow> int"
  bfin :: "nat \<Rightarrow> bool"

definition binit :: "nat \<Rightarrow> bstate" where
  "binit Tb = \<lparr>btab = (\<lambda>_. 0), block = (\<lambda>_. 0), blogp = 0,
              btpos = (\<lambda>_. int Tb - 1), bfin = (\<lambda>_. False)\<rparr>"

definition cu_kernel_backward_step ::
  "index_mode \<Rightarrow> nat \<Rightarrow> (nat \<times> nat \<times> nat \<times> nat \<Rightarrow> real) \<Rightarrow> (nat \<times> nat \<Rightarrow> nat) \<Rightarrow>
   (nat \<Rightarrow> nat) \<Rightarrow> (nat \<Rightarrow> nat) \<Rightarrow> nat \<Rightarrow> nat \<Rightarrow> nat \<Rightarrow> bstate \<Rightarrow> error + bstate" where
  "cu_kernel_backward_step md maxU log_probs labels T U blank b u s =
     (if bfin s u then Inr s
      else
        let t = btpos s u in
        if u \<le> U b \<and> 0 \<le> t then
          (if u = U b then
             (let be = (btab s)((nat t, u) :=
                         (if t = int (T b) - 1 then log_probs (b, nat t, u, blank)
                          else btab s (nat t + 1, u) + log_probs (b, nat t, u, blank)))
              in case atomic_add md maxU (block s) (int u - 1) (- 1) of
                   Inl e \<Rightarrow> Inl e
                 | Inr (lk, _) \<Rightarrow>
                     Inr (s\<lparr>btab := be, block := lk, btpos := (btpos s)(u := t - 1)\<rparr>))
           else
             (case atomic_add md maxU (block s) (int u) 0 of
                Inl e \<Rightarrow> Inl e
              | Inr (lk0, old) \<Rightarrow>
                  if old < 0 then
                    (let be = (btab s)((nat t, u) :=
                               (if t = int (T b) - 1 then
                                  btab s (nat t, u + 1) + log_probs (b, nat t, u, labels (b, u))
                                else
                                  (let emit = btab s (nat t, u + 1)
                                                + log_probs (b, nat t, u, labels (b, u));
                                       no_emit = btab s (nat t + 1, u)
                                                   + log_probs (b, nat t, u, blank)
                                   in max no_emit emit + log1p (exp (- \<bar>no_emit - emit\<bar>)))))
                     in case (if 0 < u then atomic_add md maxU lk0 (int u - 1) (- 1)
                              else Inr (lk0, 0)) of
                          Inl e \<Rightarrow> Inl e
                        | Inr (lk1, _) \<Rightarrow>
                            (case atomic_add md maxU lk1 (int u) 1 of
                               Inl e \<Rightarrow> Inl e
                             | Inr (lk2, _) \<Rightarrow>
                                 Inr (s\<lparr>btab := be, block := lk2,
                                        btpos := (btpos s)(u := t - 1)\<rparr>)))
                  else Inr (s\<lparr>block := lk0\<rparr>)))
        else if u = 0 then
          Inr (s\<lparr>blogp := btab s (0, 0), bfin := (bfin s)(u := True)\<rparr>)
        else Inr (s\<lparr>bfin := (bfin s)(u := True)\<rparr>))"

definition cu_kernel_backward ::
  "index_mode \<Rightarrow> nat \<Rightarrow> (nat \<times> nat \<times> nat \<times> nat \<Rightarrow> real) \<Rightarrow> (nat \<times> nat \<Rightarrow> nat) \<Rightarrow>
   (nat \<Rightarrow> nat) \<Rightarrow> (nat \<Rightarrow> nat) \<Rightarrow> nat \<Rightarrow> nat \<Rightarrow> nat list \<Rightarrow> error + bstate" where
  "cu_kernel_backward md maxU log_probs labels T U blank b sched =
     (case run_sched (cu_kernel_backward_step md maxU log_probs labels T U blank b)
             maxU sched (binit (T b)) of
        Inl e \<Rightarrow> Inl e
      | Inr s \<Rightarrow> if (\<forall>u < maxU. bfin s u) then Inr s else Inl Unfinished)"

subsection \<open>cu\_kernel\_compute\_grad\<close>

text \<open>
  One worker per time step, no counters: a worker is run as a whole. \<open>L\<close> is the width
  of \<^verbatim>\<open>labels\<close>, the range of \<^verbatim>\<open>enumerate(labels[b])\<close>. Every gradient cell is
  written twice, as in the source: first the sum of alpha and beta, then the value
  computed from that cell. \<open>grads\<close> is the slice of the buffer that
  \<^verbatim>\<open>Transducer.forward\<close> allocates with \<^verbatim>\<open>torch.zeros\<close>.
\<close>

definition grad_blank ::
  "(nat \<times> nat \<times> nat \<times> nat \<Rightarrow> real) \<Rightarrow> (nat \<times> nat \<Rightarrow> real) \<Rightarrow> (nat \<times> nat \<Rightarrow> real) \<Rightarrow>
   nat \<Rightarrow> nat \<Rightarrow> nat \<Rightarrow> (nat \<times> nat \<times> nat \<Rightarrow> real) \<Rightarrow> nat \<Rightarrow> (nat \<times> nat \<times> nat \<Rightarrow> real)" where
  "grad_blank log_probs alpha beta blank b t g u =
     (let g1 = g((t, u, blank) := alpha (t, u) + beta (t + 1, u))
      in g1((t, u, blank) :=
              - exp (g1 (t, u, blank) + log_probs (b, t, u, blank) - beta (0, 0))))"

definition grad_emit ::
  "(nat \<times> nat \<times> nat \<times> nat \<Rightarrow> real) \<Rightarrow> (nat \<times> nat \<Rightarrow> nat) \<Rightarrow> (nat \<times> nat \<Rightarrow> real) \<Rightarrow>
   (nat \<times> nat \<Rightarrow> real) \<Rightarrow> (nat \<Rightarrow> nat) \<Rightarrow> nat \<Rightarrow> nat \<Rightarrow> (nat \<times> nat \<times> nat \<Rightarrow> real) \<Rightarrow> nat \<Rightarrow>
   (nat \<times> nat \<times> nat \<Rightarrow> real)" where
  "grad_emit log_probs labels alpha beta U b t g u =
     (if u < U b then
        (let l = labels (b, u);
             g1 = g((t, u, l) := alpha (t, u) + beta (t, u + 1))
         in g1((t, u, l) := - exp (g1 (t, u, l) + log_probs (b, t, u, l) - beta (0, 0))))
      else g)"

definition cu_kernel_compute_grad_thread ::
  "nat \<Rightarrow> (nat \<times> nat \<times> nat \<times> nat \<Rightarrow> real) \<Rightarrow> (nat \<times> nat \<Rightarrow> nat) \<Rightarrow> (nat \<times> nat \<Rightarrow> real) \<Rightarrow>
   (nat \<times> nat \<Rightarrow> real) \<Rightarrow> (nat \<Rightarrow> nat) \<Rightarrow> (nat \<Rightarrow> nat) \<Rightarrow> nat \<Rightarrow> nat \<Rightarrow> nat \<Rightarrow>
   (nat \<times> nat \<times> nat \<Rightarrow> real) \<Rightarrow> (nat \<times> nat \<times> nat \<Rightarrow> real)" where
  "cu_kernel_compute_grad_thread L log_probs labels alpha beta T U blank b t g =
     (if t < T b then
        (let g1 = (if t = 0 then
                     g((T b - 1, U b, blank) :=
                         - exp (alpha (T b - 1, U b) + log_probs (b, T b - 1, U b, blank)
                                - beta (0, 0)))
                   else g);
             g2 = (if int t < int (T b) - 1 then
                     foldl (grad_blank log_probs alpha beta blank b t) g1 [0 ..< U b + 1]
                   else g1)
         in foldl (grad_emit log_probs labels alpha beta U b t) g2 [0 ..< L])
      else g)"

text \<open>
  The workers \<open>0 .. maxT - 1\<close> of a block run in the order \<open>ord\<close>, each exactly once;
  a list that is not an ordering of the workers is not a run of the kernel.
\<close>

definition cu_kernel_compute_grad ::
  "nat \<Rightarrow> nat \<Rightarrow> (nat \<times> nat \<times> nat \<times> nat \<Rightarrow> real) \<Rightarrow> (nat \<times> nat \<Rightarrow> nat) \<Rightarrow> (nat \<times> nat \<Rightarrow> real) \<Rightarrow>
   (nat \<times> nat \<Rightarrow> real) \<Rightarrow> (nat \<times> nat \<times> nat \<Rightarrow> real) \<Rightarrow> (nat \<Rightarrow> nat) \<Rightarrow> (nat \<Rightarrow> nat) \<Rightarrow>
   nat \<Rightarrow> nat \<Rightarrow> nat list \<Rightarrow> error + (nat \<times> nat \<times> nat \<Rightarrow> real)" where
  "cu_kernel_compute_grad maxT L log_probs labels alpha beta grads T U blank b ord =
     (if distinct ord \<and> set ord = set [0 ..< maxT] then
        Inr (foldl (\<lambda>g t. cu_kernel_compute_grad_thread L log_probs labels alpha beta T U blank b t g)
               grads ord)
      else Inl Unfinished)"

subsection \<open>Transducer.forward and Transducer.backward\<close>

text \<open>
  A launch runs the blocks \<open>0 .. B - 1\<close>; the first failing block fails the launch.
\<close>

fun collect :: "(error + 'a) list \<Rightarrow> error + 'a list" where
  "collect [] = Inr []"
| "collect (x # xs) =
     (case x of
        Inl e \<Rightarrow> Inl e
      | Inr v \<Rightarrow> (case collect xs of Inl e \<Rightarrow> Inl e | Inr vs \<Rightarrow> Inr (v # vs)))"

definition launch :: "nat \<Rightarrow> (nat \<Rightarrow> error + 'a) \<Rightarrow> error + 'a list" where
  "launch B f = collect (map f [0 ..< B])"

text \<open>The interleavings of one invocation: a schedule per block and kernel.\<close>

record schedules =
  fsched :: "nat \<Rightarrow> nat list"
  bsched :: "nat \<Rightarrow> nat list"
  gorder :: "nat \<Rightarrow> nat list"

datatype loss_out = Scalar real | Vector "real list"

text \<open>
  \<^verbatim>\<open>ctx.grads\<close> is a reference to the gradient buffer: the heap is the list of the
  allocated gradient tensors, an address is an index into it. A gradient tensor is the
  list of its \<open>B\<close> slices.
\<close>

type_synonym gtensor = "(nat \<times> nat \<times> nat \<Rightarrow> real) list"

record ctx =
  grads :: nat

definition Transducer_forward ::
  "index_mode \<Rightarrow> nat \<Rightarrow> nat \<Rightarrow> nat \<Rightarrow> nat \<Rightarrow> nat \<Rightarrow> (nat \<times> nat \<times> nat \<times> nat \<Rightarrow> real) \<Rightarrow>
   (nat \<times> nat \<Rightarrow> nat) \<Rightarrow> (nat \<Rightarrow> nat) \<Rightarrow> (nat \<Rightarrow> nat) \<Rightarrow> nat \<Rightarrow> string \<Rightarrow> schedules \<Rightarrow>
   gtensor list \<Rightarrow> error + (loss_out \<times> ctx \<times> gtensor list)" where
  "Transducer_forward md B maxT maxU A L log_probs labels T U blank reduction sch heap =
     (case launch B (\<lambda>b. cu_kernel_forward md maxT maxU log_probs labels T U blank b
                            (fsched sch b)) of
        Inl e \<Rightarrow> Inl e
      | Inr fs \<Rightarrow>
     (case launch B (\<lambda>b. cu_kernel_backward md maxU log_probs labels T U blank b
                            (bsched sch b)) of
        Inl e \<Rightarrow> Inl e
      | Inr bs \<Rightarrow>
     (case launch B (\<lambda>b. cu_kernel_compute_grad maxT L log_probs labels
                            (tab (fs ! b)) (btab (bs ! b)) (\<lambda>_. 0) T U blank b (gorder sch b)) of
        Inl e \<Rightarrow> Inl e
      | Inr gs \<Rightarrow>
          (let c = \<lparr>grads = length heap\<rparr>;
               heap' = heap @ [gs];
               v = map (\<lambda>b. - (logp (fs ! b) + blogp (bs ! b)) / 2) [0 ..< B]
           in if reduction = ''mean'' then
                Inr (Scalar (sum_list v / real (length v)), c, heap')
              else if reduction = ''sum'' then
                Inr (Scalar (foldl (+) 0 v), c, heap')
              else if reduction = ''none'' then
                Inr (Vector v, c, heap')
              else Inl (UnexpectedReduction reduction)))))"

text \<open>
  \<^verbatim>\<open>grad_output.view(-1, 1, 1, 1)\<close> is the list \<open>go\<close>; \<^verbatim>\<open>mul_\<close> broadcasts it along
  the batch axis (one value for all slices, or one per slice), writes the product into
  the buffer \<^verbatim>\<open>ctx.grads\<close> and returns that buffer.
\<close>

definition bcast :: "real list \<Rightarrow> nat \<Rightarrow> real" where
  "bcast go b = (if length go = 1 then go ! 0 else go ! b)"

definition Transducer_backward ::
  "ctx \<Rightarrow> real list \<Rightarrow> gtensor list \<Rightarrow> error + (nat \<times> gtensor list)" where
  "Transducer_backward c go heap =
     (if grads c < length heap then
        (let g = heap ! grads c in
         if length go = 1 \<or> length go = length g then
           Inr (grads c,
                heap[grads c := map (\<lambda>b. (\<lambda>i. (g ! b) i * bcast go b)) [0 ..< length g]])
         else Inl BroadcastError)
      else Inl OutOfBounds)"


subsection \<open>The recurrences and the invariants of the sweeps\<close>

text \<open>
  \<open>alpha_rec\<close> and \<open>beta_rec\<close> are the values the two lattice recurrences prescribe for
  cell \<open>(t, u)\<close> from its neighbours in a table.
\<close>

definition alpha_rec ::
  "(nat \<times> nat \<times> nat \<times> nat \<Rightarrow> real) \<Rightarrow> (nat \<times> nat \<Rightarrow> nat) \<Rightarrow> nat \<Rightarrow> nat \<Rightarrow>
   (nat \<times> nat \<Rightarrow> real) \<Rightarrow> nat \<Rightarrow> nat \<Rightarrow> real" where
  "alpha_rec log_probs labels blank b al t u =
     (if u = 0 then
        (if t = 0 then 0 else al (t - 1, 0) + log_probs (b, t - 1, 0, blank))
      else if t = 0 then al (0, u - 1) + log_probs (b, 0, u - 1, labels (b, u - 1))
      else
        (let no_emit = al (t - 1, u) + log_probs (b, t - 1, u, blank);
             emit = al (t, u - 1) + log_probs (b, t, u - 1, labels (b, u - 1))
         in max no_emit emit + log1p (exp (- \<bar>no_emit - emit\<bar>))))"

definition beta_rec ::
  "(nat \<times> nat \<times> nat \<times> nat \<Rightarrow> real) \<Rightarrow> (nat \<times> nat \<Rightarrow> nat) \<Rightarrow> (nat \<Rightarrow> nat) \<Rightarrow> (nat \<Rightarrow> nat) \<Rightarrow>
   nat \<Rightarrow> nat \<Rightarrow> (nat \<times> nat \<Rightarrow> real) \<Rightarrow> nat \<Rightarrow> nat \<Rightarrow> real" where
  "beta_rec log_probs labels T U blank b be t u =
     (if u = U b then
        (if t + 1 = T b then log_probs (b, t, u, blank)
         else be (t + 1, u) + log_probs (b, t, u, blank))
      else if t + 1 = T b then be (t, u + 1) + log_probs (b, t, u, labels (b, u))
      else
        (let no_emit = be (t + 1, u) + log_probs (b, t, u, blank);
             emit = be (t, u + 1) + log_probs (b, t, u, labels (b, u))
         in max no_emit emit + log1p (exp (- \<bar>no_emit - emit\<bar>))))"

text \<open>
  What holds between two steps of a sweep: a worker has filled its column up to its
  local \<open>t\<close>, every filled cell satisfies its recurrence, the counter of a worker is the
  difference of its progress and its neighbour's, and no worker is ahead of the neighbour
  it depends on.
\<close>

definition finv ::
  "(nat \<times> nat \<times> nat \<times> nat \<Rightarrow> real) \<Rightarrow> (nat \<times> nat \<Rightarrow> nat) \<Rightarrow> (nat \<Rightarrow> nat) \<Rightarrow> (nat \<Rightarrow> nat) \<Rightarrow>
   nat \<Rightarrow> nat \<Rightarrow> fstate \<Rightarrow> bool" where
  "finv log_probs labels T U blank b s =
     ((\<forall>u \<le> U b. tpos s u \<le> T b) \<and>
      (\<forall>u. 0 < u \<and> u \<le> U b \<longrightarrow>
           lock s u = int (tpos s u) - int (tpos s (u - 1)) \<and> tpos s u \<le> tpos s (u - 1)) \<and>
      (\<forall>u \<le> U b. \<forall>t < tpos s u.
           tab s (t, u) = alpha_rec log_probs labels blank b (tab s) t u) \<and>
      (\<forall>u \<le> U b. fin s u \<longrightarrow> tpos s u = T b))"

definition binv ::
  "(nat \<times> nat \<times> nat \<times> nat \<Rightarrow> real) \<Rightarrow> (nat \<times> nat \<Rightarrow> nat) \<Rightarrow> (nat \<Rightarrow> nat) \<Rightarrow> (nat \<Rightarrow> nat) \<Rightarrow>
   nat \<Rightarrow> nat \<Rightarrow> bstate \<Rightarrow> bool" where
  "binv log_probs labels T U blank b s =
     ((\<forall>u \<le> U b. - 1 \<le> btpos s u \<and> btpos s u \<le> int (T b) - 1) \<and>
      (\<forall>u < U b. block s u = btpos s (u + 1) - btpos s u \<and> btpos s (u + 1) \<le> btpos s u) \<and>
      (\<forall>u \<le> U b. \<forall>t. btpos s u < int t \<and> t < T b \<longrightarrow>
           btab s (t, u) = beta_rec log_probs labels T U blank b (btab s) t u) \<and>
      (\<forall>u \<le> U b. bfin s u \<longrightarrow> btpos s u = - 1) \<and>
      (bfin s 0 \<longrightarrow> blogp s = btab s (0, 0)))"

text \<open>
  \<open>grad_cell\<close> is the gradient lattice cell by cell; \<open>grad_writes t\<close> are the cells that
  worker \<open>t\<close> of the gradient sweep writes.
\<close>

definition grad_cell ::
  "(nat \<times> nat \<times> nat \<times> nat \<Rightarrow> real) \<Rightarrow> (nat \<times> nat \<Rightarrow> nat) \<Rightarrow> (nat \<times> nat \<Rightarrow> real) \<Rightarrow>
   (nat \<times> nat \<Rightarrow> real) \<Rightarrow> (nat \<Rightarrow> nat) \<Rightarrow> (nat \<Rightarrow> nat) \<Rightarrow> nat \<Rightarrow> nat \<Rightarrow> nat \<times> nat \<times> nat \<Rightarrow> real" where
  "grad_cell log_probs labels alpha beta T U blank b =
     (\<lambda>(t, u, k).
        if t + 1 = T b \<and> u = U b \<and> k = blank then
          - exp (alpha (t, u) + log_probs (b, t, u, blank) - beta (0, 0))
        else if t + 1 < T b \<and> u \<le> U b \<and> k = blank then
          - exp (alpha (t, u) + beta (t + 1, u) + log_probs (b, t, u, blank) - beta (0, 0))
        else if t < T b \<and> u < U b \<and> k = labels (b, u) then
          - exp (alpha (t, u) + beta (t, u + 1) + log_probs (b, t, u, k) - beta (0, 0))
        else 0)"

definition grad_writes ::
  "(nat \<times> nat \<Rightarrow> nat) \<Rightarrow> (nat \<Rightarrow> nat) \<Rightarrow> (nat \<Rightarrow> nat) \<Rightarrow> nat \<Rightarrow> nat \<Rightarrow> nat \<Rightarrow> nat \<times> nat \<times> nat \<Rightarrow> bool" where
  "grad_writes labels T U blank b t =
     (\<lambda>(t', u, k).
        t < T b \<and>
        (t = 0 \<and> t' + 1 = T b \<and> u = U b \<and> k = blank \<or>
         t' = t \<and> t + 1 < T b \<and> u \<le> U b \<and> k = blank \<or>
         t' = t \<and> u < U b \<and> k = labels (b, u)))"

text \<open>
  What holds in the forward sweep once worker \<open>U[b]\<close> has finished its column while
  worker \<open>0\<close> has not yet left its loop: from then on the value that worker \<open>0\<close>
  publishes is taken from the finished cell.
\<close>

definition fpub ::
  "(nat \<times> nat \<times> nat \<times> nat \<Rightarrow> real) \<Rightarrow> (nat \<times> nat \<Rightarrow> nat) \<Rightarrow> (nat \<Rightarrow> nat) \<Rightarrow> (nat \<Rightarrow> nat) \<Rightarrow>
   nat \<Rightarrow> nat \<Rightarrow> fstate \<Rightarrow> bool" where
  "fpub log_probs labels T U blank b s =
     (finv log_probs labels T U blank b s \<and> tpos s (U b) = T b \<and>
      (fin s 0 \<longrightarrow> logp s = tab s (T b - 1, U b) + log_probs (b, T b - 1, U b, blank)))"

subsection \<open>A small invocation\<close>

text \<open>
  One batch element, \<open>T = 1\<close>, \<open>U = 1\<close>, target \<open>[1]\<close>, on a lattice of shape
  \<open>1 \<times> 1 \<times> 2 \<times> 2\<close>, with an interleaving in which every worker finds its doorbell
  rung. It is the input of the examples below.
\<close>

definition demo_lp :: "nat \<times> nat \<times> nat \<times> nat \<Rightarrow> real" where
  "demo_lp = (\<lambda>(b, t, u, k). - real (1 + t + u + k))"

definition demo_labels :: "nat \<times> nat \<Rightarrow> nat" where
  "demo_labels = (\<lambda>_. 1)"

definition demo_len :: "nat \<Rightarrow> nat" where
  "demo_len = (\<lambda>_. 1)"

definition demo_sch :: schedules where
  "demo_sch = \<lparr>fsched = (\<lambda>_. [0, 1, 1, 0]), bsched = (\<lambda>_. [1, 0, 0, 1]), gorder = (\<lambda>_. [0])\<rparr>"

subsection \<open>The brute-force reference and the doctest scenario\<close>

text \<open>
  The reference the loss is compared with: an alignment is a sequence of moves from
  \<open>(0, 0)\<close> to \<open>(T - 1, U)\<close>, \<open>NoEmit\<close> advancing the time step and \<open>Emit\<close> the label
  position, closed by the blank at \<open>(T - 1, U)\<close>. \<open>alignments n m\<close> lists the sequences
  of \<open>n\<close> \<open>NoEmit\<close> and \<open>m\<close> \<open>Emit\<close> moves, \<open>path_logprob\<close> adds the log-probabilities
  along one of them, and \<open>brute_force_loss\<close> is the negated log-sum-exp over all of them.
\<close>

datatype move = NoEmit | Emit

fun alignments :: "nat \<Rightarrow> nat \<Rightarrow> move list list" where
  "alignments 0 0 = [[]]"
| "alignments (Suc n) 0 = map ((#) NoEmit) (alignments n 0)"
| "alignments 0 (Suc m) = map ((#) Emit) (alignments 0 m)"
| "alignments (Suc n) (Suc m) =
     map ((#) NoEmit) (alignments n (Suc m)) @ map ((#) Emit) (alignments (Suc n) m)"

fun path_logprob ::
  "(nat \<times> nat \<times> nat \<times> nat \<Rightarrow> real) \<Rightarrow> (nat \<times> nat \<Rightarrow> nat) \<Rightarrow> nat \<Rightarrow> nat \<Rightarrow> nat \<Rightarrow> nat \<Rightarrow>
   move list \<Rightarrow> real" where
  "path_logprob log_probs labels blank b t u [] = log_probs (b, t, u, blank)"
| "path_logprob log_probs labels blank b t u (NoEmit # p) =
     log_probs (b, t, u, blank) + path_logprob log_probs labels blank b (t + 1) u p"
| "path_logprob log_probs labels blank b t u (Emit # p) =
     log_probs (b, t, u, labels (b, u)) + path_logprob log_probs labels blank b t (u + 1) p"

definition brute_force_loss ::
  "(nat \<times> nat \<times> nat \<times> nat \<Rightarrow> real) \<Rightarrow> (nat \<times> nat \<Rightarrow> nat) \<Rightarrow> (nat \<Rightarrow> nat) \<Rightarrow> (nat \<Rightarrow> nat) \<Rightarrow>
   nat \<Rightarrow> nat \<Rightarrow> real" where
  "brute_force_loss log_probs labels T U blank b =
     - ln (sum_list (map (\<lambda>p. exp (path_logprob log_probs labels blank b 0 0 p))
                      (alignments (T b - 1) (U b))))"

text \<open>
  The scenario of the doctest: one batch element on a lattice of shape
  \<open>1 \<times> 2 \<times> 3 \<times> 5\<close>, \<open>labels = [[1, 2]]\<close>, both lengths \<open>2\<close>, blank \<open>0\<close>; \<open>scn_lp\<close>
  is the uniform distribution over the five symbols, and \<open>scn_sch\<close> an interleaving
  that runs each sweep column by column.
\<close>

definition scn_labels :: "nat \<times> nat \<Rightarrow> nat" where
  "scn_labels = (\<lambda>(b, u). if u = 0 then 1 else 2)"

definition scn_len :: "nat \<Rightarrow> nat" where
  "scn_len = (\<lambda>_. 2)"

definition scn_lp :: "nat \<times> nat \<times> nat \<times> nat \<Rightarrow> real" where
  "scn_lp = (\<lambda>_. - ln 5)"

definition scn_sch :: schedules where
  "scn_sch = \<lparr>fsched = (\<lambda>_. [0, 0, 1, 1, 2, 2, 0, 1, 2]),
              bsched = (\<lambda>_. [2, 2, 1, 1, 0, 0, 0, 1, 2]),
              gorder = (\<lambda>_. [0, 1])\<rparr>"

section \<open>Results\<close>

subsection \<open>The driver\<close>

lemma collect_Inr:
  "collect xs = Inr vs \<Longrightarrow> length vs = length xs \<and> (\<forall>i < length xs. xs ! i = Inr (vs ! i))"
proof (induction xs arbitrary: vs)
  case Nil
  then show ?case by simp
next
  case (Cons x xs)
  then obtain v ws where x: "x = Inr v" and ws: "collect xs = Inr ws" and vs: "vs = v # ws"
    by (auto split: sum.splits)
  from Cons.IH [OF ws] show ?case
    by (auto simp: x vs nth_Cons split: nat.splits)
qed

lemma launch_Inr:
  assumes "launch B f = Inr vs"
  shows "length vs = B" and "b < B \<Longrightarrow> f b = Inr (vs ! b)"
  using collect_Inr [OF assms [unfolded launch_def]] by auto

lemma foldl_add_sum_list: "foldl (+) a xs = a + sum_list (xs :: real list)"
  by (induction xs arbitrary: a) (auto simp: algebra_simps)

lemma atomic_add_Inl: "atomic_add md n lk i v = Inl e \<Longrightarrow> e = OutOfBounds"
  by (auto simp: atomic_add_def split: option.splits)

lemma forward_step_Inl:
  "cu_kernel_forward_step md maxT maxU lp labels T U blank b u s = Inl e \<Longrightarrow> e = OutOfBounds"
  by (auto simp: cu_kernel_forward_step_def Let_def
      split: if_splits sum.splits prod.splits option.splits dest: atomic_add_Inl)

lemma backward_step_Inl:
  "cu_kernel_backward_step md maxU lp labels T U blank b u s = Inl e \<Longrightarrow> e = OutOfBounds"
  by (auto simp: cu_kernel_backward_step_def Let_def
      split: if_splits sum.splits prod.splits option.splits dest: atomic_add_Inl)

lemma run_sched_Inl:
  "run_sched step n us s = Inl e \<Longrightarrow> \<exists>u s'. step u s' = Inl e"
  by (induction us arbitrary: s) (auto split: if_splits sum.splits)

lemma forward_Inl:
  "cu_kernel_forward md maxT maxU lp labels T U blank b sched = Inl e
   \<Longrightarrow> e = OutOfBounds \<or> e = Unfinished"
  by (auto simp: cu_kernel_forward_def split: sum.splits if_splits
      dest!: run_sched_Inl forward_step_Inl)

lemma backward_Inl:
  "cu_kernel_backward md maxU lp labels T U blank b sched = Inl e
   \<Longrightarrow> e = OutOfBounds \<or> e = Unfinished"
  by (auto simp: cu_kernel_backward_def split: sum.splits if_splits
      dest!: run_sched_Inl backward_step_Inl)

lemma compute_grad_Inl:
  "cu_kernel_compute_grad maxT L lp labels al be g T U blank b ord = Inl e \<Longrightarrow> e = Unfinished"
  by (auto simp: cu_kernel_compute_grad_def split: if_splits)

lemma collect_Inl: "collect xs = Inl e \<Longrightarrow> Inl e \<in> set xs"
  by (induction xs) (auto split: sum.splits)

lemma launch_Inl: "launch B f = Inl e \<Longrightarrow> \<exists>b < B. f b = Inl e"
proof -
  assume "launch B f = Inl e"
  then have "Inl e \<in> f ` {0 ..< B}"
    using collect_Inl [of "map f [0 ..< B]" e] by (simp add: launch_def)
  then show ?thesis by force
qed

lemma Transducer_forward_cases:
  obtains (fail) e where
    "\<And>r. Transducer_forward md B maxT maxU A L lp labels T U blank r sch heap = Inl e"
    "e = OutOfBounds \<or> e = Unfinished"
  | (ok) v c h where
    "\<And>r. Transducer_forward md B maxT maxU A L lp labels T U blank r sch heap =
       (if r = ''mean'' then Inr (Scalar (sum_list v / real (length v)), c, h)
        else if r = ''sum'' then Inr (Scalar (foldl (+) 0 v), c, h)
        else if r = ''none'' then Inr (Vector v, c, h)
        else Inl (UnexpectedReduction r))"
    "length v = B"
    "\<And>b. b < B \<Longrightarrow> \<exists>fa ba.
        cu_kernel_forward md maxT maxU lp labels T U blank b (fsched sch b) = Inr fa \<and>
        cu_kernel_backward md maxU lp labels T U blank b (bsched sch b) = Inr ba \<and>
        v ! b = - (logp fa + blogp ba) / 2"
proof (cases "launch B (\<lambda>b. cu_kernel_forward md maxT maxU lp labels T U blank b (fsched sch b))")
  case (Inl e)
  then show ?thesis
    by (intro fail [of e]) (auto simp: Transducer_forward_def dest!: launch_Inl forward_Inl)
next
  case fs: (Inr fs)
  show ?thesis
  proof (cases "launch B (\<lambda>b. cu_kernel_backward md maxU lp labels T U blank b (bsched sch b))")
    case (Inl e)
    then show ?thesis using fs
      by (intro fail [of e]) (auto simp: Transducer_forward_def dest!: launch_Inl backward_Inl)
  next
    case bs: (Inr bs)
    show ?thesis
    proof (cases "launch B (\<lambda>b. cu_kernel_compute_grad maxT L lp labels
                            (tab (fs ! b)) (btab (bs ! b)) (\<lambda>_. 0) T U blank b (gorder sch b))")
      case (Inl e)
      then show ?thesis using fs bs
        by (intro fail [of e]) (auto simp: Transducer_forward_def dest!: launch_Inl compute_grad_Inl)
    next
      case gs: (Inr gs)
      let ?v = "map (\<lambda>b. - (logp (fs ! b) + blogp (bs ! b)) / 2) [0 ..< B]"
      show ?thesis
      proof (rule ok [of ?v "\<lparr>grads = length heap\<rparr>" "heap @ [gs]"])
        fix r
        show "Transducer_forward md B maxT maxU A L lp labels T U blank r sch heap =
          (if r = ''mean'' then Inr (Scalar (sum_list ?v / real (length ?v)), \<lparr>grads = length heap\<rparr>, heap @ [gs])
           else if r = ''sum'' then Inr (Scalar (foldl (+) 0 ?v), \<lparr>grads = length heap\<rparr>, heap @ [gs])
           else if r = ''none'' then Inr (Vector ?v, \<lparr>grads = length heap\<rparr>, heap @ [gs])
           else Inl (UnexpectedReduction r))"
          using fs bs gs by (simp add: Transducer_forward_def Let_def)
      next
        show "length ?v = B" by simp
      next
        fix b assume "b < B"
        then show "\<exists>fa ba.
          cu_kernel_forward md maxT maxU lp labels T U blank b (fsched sch b) = Inr fa \<and>
          cu_kernel_backward md maxU lp labels T U blank b (bsched sch b) = Inr ba \<and>
          ?v ! b = - (logp fa + blogp ba) / 2"
          using launch_Inr(2) [OF fs] launch_Inr(2) [OF bs] by simp
      qed
    qed
  qed
qed

text \<open>
  Claim C5. Under \<^verbatim>\<open>reduction = 'none'\<close> the invocation returns a vector with one
  entry per batch element, and entry \<open>b\<close> is \<open>- (log_p_alpha[b] + log_p_beta[b]) / 2\<close>,
  where the two summands are what the forward and the backward kernel wrote for block \<open>b\<close>.
\<close>

theorem loss_none_is_negated_average:
  assumes "Transducer_forward md B maxT maxU A L lp labels T U blank ''none'' sch heap
             = Inr (out, c, heap')"
  shows "\<exists>v. out = Vector v \<and> length v = B \<and>
           (\<forall>b < B. \<exists>fa ba.
              cu_kernel_forward md maxT maxU lp labels T U blank b (fsched sch b) = Inr fa \<and>
              cu_kernel_backward md maxU lp labels T U blank b (bsched sch b) = Inr ba \<and>
              v ! b = - (logp fa + blogp ba) / 2)"
proof (cases rule: Transducer_forward_cases [of md B maxT maxU A L lp labels T U blank sch heap])
  case (fail e)
  with assms show ?thesis by simp
next
  case (ok v c' h)
  from ok(1) [of "''none''"] assms have "out = Vector v" by simp
  with ok(2,3) show ?thesis by blast
qed

text \<open>
  Claim C6. On the same input and interleaving, \<^verbatim>\<open>'sum'\<close> returns the sum of the vector
  that \<^verbatim>\<open>'none'\<close> returns, and \<^verbatim>\<open>'mean'\<close> returns that sum divided by the batch size.
\<close>

theorem reduction_laws:
  assumes "0 < B"
    and "Transducer_forward md B maxT maxU A L lp labels T U blank ''none'' sch heap
             = Inr (out, c, heap')"
  shows "\<exists>v. out = Vector v \<and>
           Transducer_forward md B maxT maxU A L lp labels T U blank ''sum'' sch heap
             = Inr (Scalar (sum_list v), c, heap') \<and>
           Transducer_forward md B maxT maxU A L lp labels T U blank ''mean'' sch heap
             = Inr (Scalar (sum_list v / real B), c, heap')"
proof (cases rule: Transducer_forward_cases [of md B maxT maxU A L lp labels T U blank sch heap])
  case (fail e)
  with assms show ?thesis by simp
next
  case (ok v c' h)
  from ok(1) [of "''none''"] assms have "out = Vector v" "c' = c" "h = heap'" by simp_all
  then show ?thesis
    using ok(1) [of "''sum''"] ok(1) [of "''mean''"] ok(2)
    by (simp add: foldl_add_sum_list)
qed



lemma all_less_2: "(\<forall>u<(2::nat). P u) = (P 0 \<and> P 1)"
  by (auto simp: less_2_cases_iff)

lemma demo_forward_runs:
  "\<exists>x. Transducer_forward md 1 1 2 2 1 demo_lp demo_labels demo_len demo_len blank ''none''
         demo_sch [] = Inr x"
  by (simp add: Transducer_forward_def launch_def demo_sch_def demo_len_def
      cu_kernel_compute_grad_def cu_kernel_forward_def cu_kernel_forward_step_def finit_def
      cu_kernel_backward_def cu_kernel_backward_step_def binit_def atomic_add_def resolve_def
      all_less_2 Let_def)

text \<open>The small invocation returns, and its loss vector is the negated average.\<close>

theorem loss_none_is_negated_average_witness:
  "\<exists>out c h.
     Transducer_forward Strict 1 1 2 2 1 demo_lp demo_labels demo_len demo_len 0 ''none''
       demo_sch [] = Inr (out, c, h) \<and>
     (\<exists>v. out = Vector v \<and> length v = 1 \<and>
        (\<forall>b < 1. \<exists>fa ba.
           cu_kernel_forward Strict 1 2 demo_lp demo_labels demo_len demo_len 0 b
             (fsched demo_sch b) = Inr fa \<and>
           cu_kernel_backward Strict 2 demo_lp demo_labels demo_len demo_len 0 b
             (bsched demo_sch b) = Inr ba \<and>
           v ! b = - (logp fa + blogp ba) / 2))"
proof -
  obtain out c h where
    run: "Transducer_forward Strict 1 1 2 2 1 demo_lp demo_labels demo_len demo_len 0 ''none''
            demo_sch [] = Inr (out, c, h)"
    using demo_forward_runs [of Strict 0] by auto
  from loss_none_is_negated_average [OF run] run show ?thesis by blast
qed

text \<open>The reduction laws on the small invocation.\<close>

theorem reduction_laws_witness:
  "(0::nat) < 1 \<and>
   (\<exists>out c h.
     Transducer_forward Strict 1 1 2 2 1 demo_lp demo_labels demo_len demo_len 0 ''none''
       demo_sch [] = Inr (out, c, h) \<and>
     (\<exists>v. out = Vector v \<and>
        Transducer_forward Strict 1 1 2 2 1 demo_lp demo_labels demo_len demo_len 0 ''sum''
          demo_sch [] = Inr (Scalar (sum_list v), c, h) \<and>
        Transducer_forward Strict 1 1 2 2 1 demo_lp demo_labels demo_len demo_len 0 ''mean''
          demo_sch [] = Inr (Scalar (sum_list v / real (1::nat)), c, h)))"
proof -
  obtain out c h where
    run: "Transducer_forward Strict 1 1 2 2 1 demo_lp demo_labels demo_len demo_len 0 ''none''
            demo_sch [] = Inr (out, c, h)"
    using demo_forward_runs [of Strict 0] by auto
  have pos: "(0::nat) < 1" by simp
  from reduction_laws [OF pos run] run show ?thesis by blast
qed


subsection \<open>Transducer.backward\<close>

text \<open>
  Claim C10. \<^verbatim>\<open>backward\<close> returns the address held in \<^verbatim>\<open>ctx.grads\<close>, and the buffer at
  that address is overwritten with the scaled gradient. A second call therefore scales
  the already scaled buffer: its result is the original gradient times both upstream
  gradients.
\<close>

theorem backward_scales_in_place:
  assumes "Transducer_backward c go1 heap = Inr (r1, heap1)"
    and "Transducer_backward c go2 heap1 = Inr (r2, heap2)"
    and "b < length (heap ! grads c)"
  shows "r1 = grads c \<and> r2 = grads c \<and>
         (heap1 ! grads c ! b) i = (heap ! grads c ! b) i * bcast go1 b \<and>
         (heap2 ! r2 ! b) i = (heap ! grads c ! b) i * bcast go1 b * bcast go2 b"
  using assms
  by (auto simp: Transducer_backward_def Let_def split: if_splits)

text \<open>Upstream gradients 2 and then 3 on a buffer of ones leave 6 in it, not 3.\<close>

theorem backward_scales_in_place_witness:
  "Transducer_backward \<lparr>grads = 0\<rparr> [2] [[\<lambda>_. 1]] = Inr (0, [[\<lambda>i. 1 * bcast [2] 0]]) \<and>
   Transducer_backward \<lparr>grads = 0\<rparr> [3] [[\<lambda>i. 1 * bcast [2] 0]]
     = Inr (0, [[\<lambda>i. 1 * bcast [2] 0 * bcast [3] 0]]) \<and>
   ([[\<lambda>i. 1 * bcast [2] 0 * bcast [3] 0]] ! 0 ! 0) (0::nat, 0::nat, 0::nat) = 1 * 2 * 3"
proof -
  have 1: "Transducer_backward \<lparr>grads = 0\<rparr> [2] [[\<lambda>_. 1]] = Inr (0, [[\<lambda>i. 1 * bcast [2] 0]])"
    by (simp add: Transducer_backward_def)
  have 2: "Transducer_backward \<lparr>grads = 0\<rparr> [3] [[\<lambda>i. 1 * bcast [2] 0]]
             = Inr (0, [[\<lambda>i. 1 * bcast [2] 0 * bcast [3] 0]])"
    by (simp add: Transducer_backward_def)
  have 3: "0 < length ([[\<lambda>_. 1]] ! grads \<lparr>grads = 0\<rparr>)" by simp
  from backward_scales_in_place [OF 1 2 3, of "(0, 0, 0)"] 1 2 show ?thesis
    by (simp add: bcast_def)
qed




subsection \<open>Counter indices\<close>

text \<open>
  Claim C9. Lengths inside the declared bounds do not keep the counter indices inside the
  row. With an empty target the boundary worker of the backward sweep rings the doorbell
  at index \<open>u - 1 = -1\<close>, and in a lattice with \<open>U_max = 1\<close> worker \<open>0\<close> of the forward
  sweep rings it at index \<open>1\<close>; with bounds-checked indices (\<open>Strict\<close>) the first step of
  worker \<open>0\<close> ends the sweep in \<open>OutOfBounds\<close>.
\<close>

theorem lock_index_out_of_bounds:
  assumes "0 < T b" and "T b \<le> maxT" and "U b \<le> maxU - 1" and "0 < maxU"
  shows "(U b = 0 \<longrightarrow>
            cu_kernel_backward Strict maxU lp labels T U blank b (0 # sched) = Inl OutOfBounds) \<and>
         (maxU = 1 \<longrightarrow>
            cu_kernel_forward Strict maxT maxU lp labels T U blank b (0 # sched) = Inl OutOfBounds)"
  using assms
  by (simp add: cu_kernel_backward_def cu_kernel_backward_step_def binit_def
      cu_kernel_forward_def cu_kernel_forward_step_def finit_def atomic_add_def resolve_def)

text \<open>A lattice of shape \<open>1 \<times> 1 \<times> 1\<close> with an empty target: both sweeps fault.\<close>

theorem lock_index_out_of_bounds_witness:
  "(0::nat) < 1 \<and> (1::nat) \<le> 1 \<and> (0::nat) \<le> 1 - 1 \<and>
   cu_kernel_backward Strict 1 demo_lp demo_labels demo_len (\<lambda>_. 0) 0 0 [0] = Inl OutOfBounds \<and>
   cu_kernel_forward Strict 1 1 demo_lp demo_labels demo_len (\<lambda>_. 0) 0 0 [0] = Inl OutOfBounds"
  using lock_index_out_of_bounds [of demo_len 0 1 "\<lambda>_. 0" 1 demo_lp demo_labels 0 "[]"]
  by (simp add: demo_len_def)

text \<open>
  With Python's wrap-around for negative indices (\<open>PyWrap\<close>) the backward access at
  \<open>-1\<close> lands on the last counter of the row, which no worker reads when the target is
  empty, and in a lattice with \<open>U_max = 2\<close> both sweeps return: the loss of a single time
  step with an empty target is \<open>- log_probs[b, 0, 0, blank]\<close>.
\<close>

lemma empty_target_loss:
  "map_sum id fst
     (Transducer_forward PyWrap 1 1 2 A L lp labels (\<lambda>_. 1) (\<lambda>_. 0) blank ''none''
        \<lparr>fsched = (\<lambda>_. [0, 0, 1]), bsched = (\<lambda>_. [0, 0, 1]), gorder = (\<lambda>_. [0])\<rparr> [])
   = Inr (Vector [- lp (0, 0, 0, blank)])"
  by (simp add: Transducer_forward_def launch_def cu_kernel_compute_grad_def
      cu_kernel_forward_def cu_kernel_forward_step_def finit_def
      cu_kernel_backward_def cu_kernel_backward_step_def binit_def atomic_add_def resolve_def
      all_less_2 Let_def)

subsection \<open>No validation\<close>





subsection \<open>The forward and the backward sweep\<close>

lemma resolve_nat: "k < n \<Longrightarrow> resolve md n (int k) = Some k"
  by (simp add: resolve_def)

lemma resolve_Suc: "k + 1 < n \<Longrightarrow> resolve md n (int k + 1) = Some (k + 1)"
  using resolve_nat [of "k + 1" n md] by (simp add: add.commute)

lemma resolve_nonneg: "0 \<le> i \<Longrightarrow> resolve md n i = Some j \<Longrightarrow> j = nat i"
  by (auto simp: resolve_def split: if_splits)

lemma forward_step_cases:
  assumes "cu_kernel_forward_step md maxT maxU lp labels T U blank b u s = Inr s'"
    and "U b < maxU" and "u < maxU"
  obtains (idle) "s' = s"
  | (first) "u = 0" "\<not> fin s 0" "tpos s 0 < T b"
      "tab s' = (tab s)((tpos s 0, 0) := alpha_rec lp labels blank b (tab s) (tpos s 0) 0)"
      "lock s' = (lock s)(1 := lock s 1 - 1)"
      "tpos s' = (tpos s)(0 := tpos s 0 + 1)"
      "fin s' = fin s" "logp s' = logp s"
  | (inner) "0 < u" "u \<le> U b" "\<not> fin s u" "tpos s u < T b" "lock s u < 0"
      "tab s' = (tab s)((tpos s u, u) := alpha_rec lp labels blank b (tab s) (tpos s u) u)"
      "lock s' = (if u < U b then (lock s)(u + 1 := lock s (u + 1) - 1, u := lock s u + 1)
                  else (lock s)(u := lock s u + 1))"
      "tpos s' = (tpos s)(u := tpos s u + 1)"
      "fin s' = fin s" "logp s' = logp s"
  | (exit) "\<not> fin s u" "\<not> (u \<le> U b \<and> tpos s u < T b)"
      "tab s' = tab s" "lock s' = lock s" "tpos s' = tpos s" "fin s' = (fin s)(u := True)"
      "u \<noteq> 0 \<Longrightarrow> logp s' = logp s"
      "u = 0 \<Longrightarrow> \<exists>tlast. resolve md maxT (int (T b) - 1) = Some tlast \<and>
                 logp s' = tab s (tlast, U b) + lp (b, tlast, U b, blank)"
proof (cases "fin s u")
  case True
  with assms show ?thesis by (intro idle) (simp add: cu_kernel_forward_step_def)
next
  case nf: False
  show ?thesis
  proof (cases "u \<le> U b \<and> tpos s u < T b")
    case False
    with nf assms show ?thesis
      by (intro exit) (auto simp: cu_kernel_forward_step_def Let_def split: if_splits option.splits)
  next
    case act: True
    show ?thesis
    proof (cases "u = 0")
      case True
      from assms nf act True have "resolve md maxU 1 = Some 1"
        using resolve_nonneg [of 1 md maxU]
        by (auto simp: cu_kernel_forward_step_def Let_def atomic_add_def split: option.splits)
      with assms nf act True show ?thesis
        by (intro first)
          (auto simp: cu_kernel_forward_step_def Let_def atomic_add_def alpha_rec_def)
    next
      case pos: False
      have ru: "resolve md maxU (int u) = Some u" using assms(3) by (rule resolve_nat)
      show ?thesis
      proof (cases "lock s u < 0")
        case False
        with assms nf act pos ru have "s' = s"
          by (auto simp: cu_kernel_forward_step_def Let_def atomic_add_def)
        then show ?thesis by (rule idle)
      next
        case neg: True
        show ?thesis
        proof (cases "u < U b")
          case True
          then have "resolve md maxU (int u + 1) = Some (u + 1)"
            using assms(2) by (intro resolve_Suc) simp
          with assms nf act pos ru neg True show ?thesis
            by (intro inner)
              (auto simp: cu_kernel_forward_step_def Let_def atomic_add_def alpha_rec_def)
        next
          case False
          with assms nf act pos ru neg show ?thesis
            by (intro inner)
              (auto simp: cu_kernel_forward_step_def Let_def atomic_add_def alpha_rec_def)
        qed
      qed
    qed
  qed
qed

lemma alpha_rec_cong:
  assumes "0 < t \<Longrightarrow> al' (t - 1, u) = al (t - 1, u)"
    and "0 < u \<Longrightarrow> al' (t, u - 1) = al (t, u - 1)"
  shows "alpha_rec lp labels blank b al' t u = alpha_rec lp labels blank b al t u"
  using assms by (auto simp: alpha_rec_def Let_def)

lemma finv_tab_update:
  assumes ok: "\<forall>u' \<le> N. \<forall>t < tp u'. al (t, u') = alpha_rec lp labels blank b al t u'"
    and mono: "\<forall>u'. 0 < u' \<and> u' \<le> N \<longrightarrow> tp u' \<le> tp (u' - 1)"
    and al': "al' = al((tp u, u) := alpha_rec lp labels blank b al (tp u) u)"
    and u': "u' \<le> N" and t: "t < (tp(u := tp u + 1)) u'"
  shows "al' (t, u') = alpha_rec lp labels blank b al' t u'"
proof (cases "(t, u') = (tp u, u)")
  case True
  have "alpha_rec lp labels blank b al' (tp u) u = alpha_rec lp labels blank b al (tp u) u"
    by (rule alpha_rec_cong) (auto simp: al')
  with True show ?thesis by (simp add: al')
next
  case False
  then have old: "t < tp u'" using t by (auto split: if_splits)
  have "alpha_rec lp labels blank b al' t u' = alpha_rec lp labels blank b al t u'"
  proof (rule alpha_rec_cong)
    assume "0 < t"
    with old show "al' (t - 1, u') = al (t - 1, u')" by (auto simp: al')
  next
    assume pos: "0 < u'"
    with mono u' have "tp u' \<le> tp (u' - 1)" by blast
    with old have "t < tp (u' - 1)" by simp
    then show "al' (t, u' - 1) = al (t, u' - 1)" by (auto simp: al')
  qed
  with ok u' old False show ?thesis by (simp add: al')
qed

lemma finv_step:
  assumes inv: "finv lp labels T U blank b s"
    and step: "cu_kernel_forward_step md maxT maxU lp labels T U blank b u s = Inr s'"
    and U: "U b < maxU" and u: "u < maxU"
  shows "finv lp labels T U blank b s'"
  using step U u
proof (cases rule: forward_step_cases)
  case idle
  with inv show ?thesis by simp
next
  case first
  from inv have mono: "\<forall>u'. 0 < u' \<and> u' \<le> U b \<longrightarrow> tpos s u' \<le> tpos s (u' - 1)"
    and ok: "\<forall>u' \<le> U b. \<forall>t < tpos s u'. tab s (t, u') = alpha_rec lp labels blank b (tab s) t u'"
    by (auto simp: finv_def)
  have 3: "\<forall>u' \<le> U b. \<forall>t < tpos s' u'. tab s' (t, u') = alpha_rec lp labels blank b (tab s') t u'"
    using finv_tab_update [OF ok mono first(4)] first(6) by simp
  have 1: "\<forall>u \<le> U b. tpos s' u \<le> T b"
    using inv first by (auto simp: finv_def)
  have 2: "lock s' u' = int (tpos s' u') - int (tpos s' (u' - 1)) \<and> tpos s' u' \<le> tpos s' (u' - 1)"
    if "0 < u'" "u' \<le> U b" for u'
  proof -
    from inv that have old: "lock s u' = int (tpos s u') - int (tpos s (u' - 1))"
      "tpos s u' \<le> tpos s (u' - 1)"
      by (auto simp: finv_def)
    show ?thesis
    proof (cases "u' = 1")
      case True
      with old first that show ?thesis by auto
    next
      case False
      with that have "u' - 1 \<noteq> 0" by auto
      with False old first that show ?thesis by auto
    qed
  qed
  have 4: "\<forall>u \<le> U b. fin s' u \<longrightarrow> tpos s' u = T b"
    using inv first by (auto simp: finv_def)
  from 1 2 3 4 show ?thesis by (simp add: finv_def)
next
  case inner
  from inv have mono: "\<forall>u'. 0 < u' \<and> u' \<le> U b \<longrightarrow> tpos s u' \<le> tpos s (u' - 1)"
    and ok: "\<forall>u' \<le> U b. \<forall>t < tpos s u'. tab s (t, u') = alpha_rec lp labels blank b (tab s) t u'"
    by (auto simp: finv_def)
  have 3: "\<forall>u' \<le> U b. \<forall>t < tpos s' u'. tab s' (t, u') = alpha_rec lp labels blank b (tab s') t u'"
    using finv_tab_update [OF ok mono inner(6)] inner(8) by simp
  have 1: "\<forall>u \<le> U b. tpos s' u \<le> T b"
    using inv inner by (auto simp: finv_def)
  have lk: "lock s u = int (tpos s u) - int (tpos s (u - 1))"
    using inv inner(1,2) by (simp add: finv_def)
  have 2: "lock s' u' = int (tpos s' u') - int (tpos s' (u' - 1)) \<and> tpos s' u' \<le> tpos s' (u' - 1)"
    if "0 < u'" "u' \<le> U b" for u'
  proof -
    from inv that have old: "lock s u' = int (tpos s u') - int (tpos s (u' - 1))"
      "tpos s u' \<le> tpos s (u' - 1)"
      by (auto simp: finv_def)
    consider "u' = u" | "u' = u + 1" | "u' \<noteq> u" "u' \<noteq> u + 1" by blast
    then show ?thesis
    proof cases
      case 1
      with old lk inner that show ?thesis by auto
    next
      case 2
      with old lk inner that show ?thesis by auto
    next
      case 3
      then have "u' - 1 \<noteq> u" using that by auto
      with 3 old inner show ?thesis by auto
    qed
  qed
  have 4: "\<forall>u \<le> U b. fin s' u \<longrightarrow> tpos s' u = T b"
    using inv inner by (auto simp: finv_def)
  from 1 2 3 4 show ?thesis by (simp add: finv_def)
next
  case exit
  from inv exit show ?thesis
    by (auto simp: finv_def)
qed

lemma finv_init: "finv lp labels T U blank b finit"
  by (simp add: finv_def finit_def)

lemma finv_run:
  assumes "run_sched (cu_kernel_forward_step md maxT maxU lp labels T U blank b) maxU sched s
             = Inr s'"
    and "finv lp labels T U blank b s" and "U b < maxU"
  shows "finv lp labels T U blank b s'"
  using assms
proof (induction sched arbitrary: s)
  case Nil
  then show ?case by simp
next
  case (Cons u us)
  show ?case
  proof (cases "u < maxU")
    case True
    with Cons.prems(1) obtain s1 where
      s1: "cu_kernel_forward_step md maxT maxU lp labels T U blank b u s = Inr s1"
      and rest: "run_sched (cu_kernel_forward_step md maxT maxU lp labels T U blank b) maxU us s1
             = Inr s'"
      by (auto split: sum.splits)
    from finv_step [OF Cons.prems(2) s1 Cons.prems(3) True] rest Cons.IH Cons.prems(3)
    show ?thesis by blast
  next
    case False
    with Cons show ?thesis by simp
  qed
qed

lemma backward_step_cases:
  assumes "cu_kernel_backward_step md maxU lp labels T U blank b u s = Inr s'"
    and "U b < maxU" and "u < maxU"
  obtains (idle) "s' = s"
  | (last) j where "u = U b" "\<not> bfin s u" "0 \<le> btpos s u"
      "btab s' = (btab s)((nat (btpos s u), u) :=
                   beta_rec lp labels T U blank b (btab s) (nat (btpos s u)) u)"
      "block s' = (block s)(j := block s j - 1)" "0 < U b \<Longrightarrow> j = U b - 1"
      "btpos s' = (btpos s)(u := btpos s u - 1)"
      "bfin s' = bfin s" "blogp s' = blogp s"
  | (inner) "u < U b" "\<not> bfin s u" "0 \<le> btpos s u" "block s u < 0"
      "btab s' = (btab s)((nat (btpos s u), u) :=
                   beta_rec lp labels T U blank b (btab s) (nat (btpos s u)) u)"
      "block s' = (if 0 < u then (block s)(u - 1 := block s (u - 1) - 1, u := block s u + 1)
                   else (block s)(u := block s u + 1))"
      "btpos s' = (btpos s)(u := btpos s u - 1)"
      "bfin s' = bfin s" "blogp s' = blogp s"
  | (exit) "\<not> bfin s u" "\<not> (u \<le> U b \<and> 0 \<le> btpos s u)"
      "btab s' = btab s" "block s' = block s" "btpos s' = btpos s"
      "bfin s' = (bfin s)(u := True)" "blogp s' = (if u = 0 then btab s (0, 0) else blogp s)"
proof (cases "bfin s u")
  case True
  with assms show ?thesis by (intro idle) (simp add: cu_kernel_backward_step_def)
next
  case nf: False
  show ?thesis
  proof (cases "u \<le> U b \<and> 0 \<le> btpos s u")
    case False
    with nf assms show ?thesis
      by (intro exit) (auto simp: cu_kernel_backward_step_def Let_def split: if_splits)
  next
    case act: True
    then have eq: "(btpos s u = int (T b) - 1) = (nat (btpos s u) + 1 = T b)" by auto
    show ?thesis
    proof (cases "u = U b")
      case True
      from assms nf act True obtain j where j: "resolve md maxU (int u - 1) = Some j"
        by (auto simp: cu_kernel_backward_step_def Let_def atomic_add_def split: option.splits)
      have "j = U b - 1" if "0 < U b"
        using resolve_nonneg [OF _ j] that True by auto
      with assms nf act True j eq show ?thesis
        by (intro last [of j])
          (auto simp: cu_kernel_backward_step_def Let_def atomic_add_def beta_rec_def)
    next
      case ne: False
      have ru: "resolve md maxU (int u) = Some u" using assms(3) by (rule resolve_nat)
      show ?thesis
      proof (cases "block s u < 0")
        case False
        with assms nf act ne ru have "s' = s"
          by (auto simp: cu_kernel_backward_step_def Let_def atomic_add_def)
        then show ?thesis by (rule idle)
      next
        case neg: True
        show ?thesis
        proof (cases "0 < u")
          case True
          then have "resolve md maxU (int u - 1) = Some (u - 1)"
            using resolve_nat [of "u - 1" maxU md] assms(3) by (simp add: of_nat_diff)
          with assms nf act ne ru neg True eq show ?thesis
            by (intro inner)
              (auto simp: cu_kernel_backward_step_def Let_def atomic_add_def beta_rec_def)
        next
          case False
          with assms nf act ne ru neg eq show ?thesis
            by (intro inner)
              (auto simp: cu_kernel_backward_step_def Let_def atomic_add_def beta_rec_def)
        qed
      qed
    qed
  qed
qed

lemma beta_rec_cong:
  assumes "t + 1 \<noteq> T b \<Longrightarrow> be' (t + 1, u) = be (t + 1, u)"
    and "u \<noteq> U b \<Longrightarrow> be' (t, u + 1) = be (t, u + 1)"
  shows "beta_rec lp labels T U blank b be' t u = beta_rec lp labels T U blank b be t u"
  using assms by (auto simp: beta_rec_def Let_def)

lemma binv_tab_update:
  assumes ok: "\<forall>u' \<le> N. \<forall>t. tp u' < int t \<and> t < Tb \<longrightarrow>
                 be (t, u') = beta_rec lp labels T U blank b be t u'"
    and mono: "\<forall>u' < N. tp (u' + 1) \<le> tp u'"
    and N: "N = U b" and Tb: "Tb = T b"
    and be': "be' = be((nat (tp u), u) := beta_rec lp labels T U blank b be (nat (tp u)) u)"
    and nn: "0 \<le> tp u"
    and u': "u' \<le> N" and t: "(tp(u := tp u - 1)) u' < int t" "t < Tb"
  shows "be' (t, u') = beta_rec lp labels T U blank b be' t u'"
proof (cases "(t, u') = (nat (tp u), u)")
  case True
  have "beta_rec lp labels T U blank b be' (nat (tp u)) u
        = beta_rec lp labels T U blank b be (nat (tp u)) u"
    by (rule beta_rec_cong) (auto simp: be')
  with True show ?thesis by (simp add: be')
next
  case False
  then have old: "tp u' < int t" using t nn by (cases "u' = u") auto
  have "beta_rec lp labels T U blank b be' t u' = beta_rec lp labels T U blank b be t u'"
  proof (rule beta_rec_cong)
    from old nn show "be' (t + 1, u') = be (t + 1, u')" by (auto simp: be')
  next
    assume "u' \<noteq> U b"
    with u' N have "u' < N" by simp
    with mono have "tp (u' + 1) \<le> tp u'" by blast
    with old have "tp (u' + 1) < int t" by simp
    then show "be' (t, u' + 1) = be (t, u' + 1)" using nn by (auto simp: be')
  qed
  with ok u' old t(2) False show ?thesis by (simp add: be')
qed

lemma binv_step:
  assumes inv: "binv lp labels T U blank b s"
    and step: "cu_kernel_backward_step md maxU lp labels T U blank b u s = Inr s'"
    and U: "U b < maxU" and u: "u < maxU"
  shows "binv lp labels T U blank b s'"
  using step U u
proof (cases rule: backward_step_cases)
  case idle
  with inv show ?thesis by simp
next
  case (last j)
  from inv have mono: "\<forall>u' < U b. btpos s (u' + 1) \<le> btpos s u'"
    and ok: "\<forall>u' \<le> U b. \<forall>t. btpos s u' < int t \<and> t < T b \<longrightarrow>
               btab s (t, u') = beta_rec lp labels T U blank b (btab s) t u'"
    by (auto simp: binv_def)
  have 3: "\<forall>u' \<le> U b. \<forall>t. btpos s' u' < int t \<and> t < T b \<longrightarrow>
             btab s' (t, u') = beta_rec lp labels T U blank b (btab s') t u'"
    using binv_tab_update [OF ok mono refl refl last(4) last(3)] last(7) by simp
  have 1: "- 1 \<le> btpos s' u' \<and> btpos s' u' \<le> int (T b) - 1" if "u' \<le> U b" for u'
  proof -
    from inv that have "- 1 \<le> btpos s u' \<and> btpos s u' \<le> int (T b) - 1"
      by (simp add: binv_def)
    with last(3,7) show ?thesis by (cases "u' = u") auto
  qed
  have 2: "block s' u' = btpos s' (u' + 1) - btpos s' u' \<and> btpos s' (u' + 1) \<le> btpos s' u'"
    if "u' < U b" for u'
  proof -
    from inv that have old: "block s u' = btpos s (u' + 1) - btpos s u'"
      "btpos s (u' + 1) \<le> btpos s u'"
      by (auto simp: binv_def)
    from that last(6) have j: "j = U b - 1" by simp
    show ?thesis
    proof (cases "u' = U b - 1")
      case True
      with old last that j show ?thesis by auto
    next
      case False
      with that have "u' + 1 \<noteq> U b" by auto
      with False old last that j show ?thesis by auto
    qed
  qed
  have 4: "btpos s' u' = - 1" if "u' \<le> U b" "bfin s' u'" for u'
  proof -
    from that last(2,8) have "u' \<noteq> u" by (intro notI) simp
    moreover from inv that last(8) have "btpos s u' = - 1" by (simp add: binv_def)
    ultimately show ?thesis using last(7) by simp
  qed
  have 5: "blogp s' = btab s' (0, 0)" if "bfin s' 0"
  proof -
    from that last(2,8) have "u \<noteq> 0" by (intro notI) simp
    moreover from inv that last(8) have "blogp s = btab s (0, 0)" by (simp add: binv_def)
    ultimately show ?thesis using last by simp
  qed
  from 1 2 3 4 5 show ?thesis by (simp add: binv_def)
next
  case inner
  from inv have mono: "\<forall>u' < U b. btpos s (u' + 1) \<le> btpos s u'"
    and ok: "\<forall>u' \<le> U b. \<forall>t. btpos s u' < int t \<and> t < T b \<longrightarrow>
               btab s (t, u') = beta_rec lp labels T U blank b (btab s) t u'"
    by (auto simp: binv_def)
  have 3: "\<forall>u' \<le> U b. \<forall>t. btpos s' u' < int t \<and> t < T b \<longrightarrow>
             btab s' (t, u') = beta_rec lp labels T U blank b (btab s') t u'"
    using binv_tab_update [OF ok mono refl refl inner(5) inner(3)] inner(7) by simp
  have lk: "block s u = btpos s (u + 1) - btpos s u"
    using inv inner(1) by (simp add: binv_def)
  have 1: "- 1 \<le> btpos s' u' \<and> btpos s' u' \<le> int (T b) - 1" if "u' \<le> U b" for u'
  proof -
    from inv that have "- 1 \<le> btpos s u' \<and> btpos s u' \<le> int (T b) - 1"
      by (simp add: binv_def)
    with inner(3,7) show ?thesis by (cases "u' = u") auto
  qed
  have 2: "block s' u' = btpos s' (u' + 1) - btpos s' u' \<and> btpos s' (u' + 1) \<le> btpos s' u'"
    if "u' < U b" for u'
  proof -
    from inv that have old: "block s u' = btpos s (u' + 1) - btpos s u'"
      "btpos s (u' + 1) \<le> btpos s u'"
      by (auto simp: binv_def)
    consider "u' = u" | "u' + 1 = u" | "u' \<noteq> u" "u' + 1 \<noteq> u" by blast
    then show ?thesis
    proof cases
      case 1
      with old lk inner that show ?thesis by auto
    next
      case 2
      with old lk inner that show ?thesis by auto
    next
      case 3
      then have "u' \<noteq> u - 1 \<or> u = 0" by auto
      with 3 old inner show ?thesis by auto
    qed
  qed
  have 4: "btpos s' u' = - 1" if "u' \<le> U b" "bfin s' u'" for u'
  proof -
    from that inner(2,8) have "u' \<noteq> u" by (intro notI) simp
    moreover from inv that inner(8) have "btpos s u' = - 1" by (simp add: binv_def)
    ultimately show ?thesis using inner(7) by simp
  qed
  have 5: "blogp s' = btab s' (0, 0)" if "bfin s' 0"
  proof -
    from that inner(2,8) have "u \<noteq> 0" by (intro notI) simp
    moreover from inv that inner(8) have "blogp s = btab s (0, 0)" by (simp add: binv_def)
    ultimately show ?thesis using inner by simp
  qed
  from 1 2 3 4 5 show ?thesis by (simp add: binv_def)
next
  case exit
  from inv exit show ?thesis
    by (auto simp: binv_def)
qed

lemma binv_init: "binv lp labels T U blank b (binit (T b))"
  by (simp add: binv_def binit_def)

lemma binv_run:
  assumes "run_sched (cu_kernel_backward_step md maxU lp labels T U blank b) maxU sched s
             = Inr s'"
    and "binv lp labels T U blank b s" and "U b < maxU"
  shows "binv lp labels T U blank b s'"
  using assms
proof (induction sched arbitrary: s)
  case Nil
  then show ?case by simp
next
  case (Cons u us)
  show ?case
  proof (cases "u < maxU")
    case True
    with Cons.prems(1) obtain s1 where
      s1: "cu_kernel_backward_step md maxU lp labels T U blank b u s = Inr s1"
      and rest: "run_sched (cu_kernel_backward_step md maxU lp labels T U blank b) maxU us s1
             = Inr s'"
      by (auto split: sum.splits)
    from binv_step [OF Cons.prems(2) s1 Cons.prems(3) True] rest Cons.IH Cons.prems(3)
    show ?thesis by blast
  next
    case False
    with Cons show ?thesis by simp
  qed
qed

subsection \<open>The two sweeps compute the same likelihood\<close>

text \<open>The stable form used by the kernels is the logarithm of the sum of two exponentials.\<close>

lemma logaddexp: "exp (max x y + log1p (exp (- \<bar>x - y\<bar>))) = exp x + exp (y::real)"
proof (cases "x \<le> y")
  case True
  then have "exp (max x y + log1p (exp (- \<bar>x - y\<bar>))) = exp y * (1 + exp (x - y))"
    by (simp add: log1p_def exp_add max_def add_pos_pos)
  also have "\<dots> = exp x + exp y"
    by (simp add: algebra_simps exp_add [symmetric])
  finally show ?thesis .
next
  case False
  then have "exp (max x y + log1p (exp (- \<bar>x - y\<bar>))) = exp x * (1 + exp (y - x))"
    by (simp add: log1p_def exp_add max_def add_pos_pos)
  also have "\<dots> = exp x + exp y"
    by (simp add: algebra_simps exp_add [symmetric])
  finally show ?thesis .
qed

text \<open>
  Along one row of the lattice the forward values \<open>x\<close> are built from the inflow \<open>c\<close>
  and the backward values \<open>y\<close> from the outflow \<open>d\<close>; the inflow weighted by \<open>y\<close> equals
  the outflow weighted by \<open>x\<close>.
\<close>

lemma chain_adjoint:
  fixes x y c d e :: "nat \<Rightarrow> real"
  assumes x0: "x 0 = c 0"
    and xS: "\<And>u. u < N \<Longrightarrow> x (Suc u) = c (Suc u) + x u * e u"
    and yN: "y N = d N"
    and yS: "\<And>u. u < N \<Longrightarrow> y u = d u + e u * y (Suc u)"
  shows "(\<Sum>u\<le>N. c u * y u) = (\<Sum>u\<le>N. x u * d u)"
proof -
  have P: "(\<Sum>u\<le>k. c u * y u) = (\<Sum>u<k. x u * d u) + x k * y k" if "k \<le> N" for k
    using that
  proof (induction k)
    case 0
    then show ?case by (simp add: x0)
  next
    case (Suc k)
    then have k: "k < N" by simp
    have "(\<Sum>u\<le>Suc k. c u * y u) = (\<Sum>u<k. x u * d u) + x k * y k + c (Suc k) * y (Suc k)"
      using Suc.IH k by simp
    also have "\<dots> = (\<Sum>u<k. x u * d u) + x k * d k + (c (Suc k) + x k * e k) * y (Suc k)"
      by (subst yS [OF k]) (simp add: algebra_simps)
    also have "\<dots> = (\<Sum>u<Suc k. x u * d u) + x (Suc k) * y (Suc k)"
      by (simp add: xS [OF k])
    finally show ?case .
  qed
  have "(\<Sum>u\<le>N. x u * d u) = (\<Sum>u<N. x u * d u) + x N * d N"
    by (simp add: lessThan_Suc_atMost [symmetric])
  with P [of N] yN show ?thesis by simp
qed


lemma exp_alpha_rec:
  "exp (alpha_rec lp labels blank b al t u) =
     (if t = 0 then (if u = 0 then 1 else 0)
      else exp (al (t - 1, u)) * exp (lp (b, t - 1, u, blank))) +
     (if u = 0 then 0
      else exp (al (t, u - 1)) * exp (lp (b, t, u - 1, labels (b, u - 1))))"
proof (cases "t = 0 \<or> u = 0")
  case True
  then show ?thesis by (auto simp: alpha_rec_def exp_add)
next
  case False
  then have "exp (alpha_rec lp labels blank b al t u) =
      exp (al (t - 1, u) + lp (b, t - 1, u, blank)) +
      exp (al (t, u - 1) + lp (b, t, u - 1, labels (b, u - 1)))"
    by (simp add: alpha_rec_def Let_def logaddexp)
  with False show ?thesis by (simp add: exp_add)
qed

lemma exp_beta_rec:
  "exp (beta_rec lp labels T U blank b be t u) =
     (if t + 1 = T b then (if u = U b then exp (lp (b, t, u, blank)) else 0)
      else exp (be (t + 1, u)) * exp (lp (b, t, u, blank))) +
     (if u = U b then 0
      else exp (be (t, u + 1)) * exp (lp (b, t, u, labels (b, u))))"
proof (cases "t + 1 = T b \<or> u = U b")
  case True
  then show ?thesis by (auto simp: beta_rec_def exp_add)
next
  case False
  then have "exp (beta_rec lp labels T U blank b be t u) =
      exp (be (t + 1, u) + lp (b, t, u, blank)) +
      exp (be (t, u + 1) + lp (b, t, u, labels (b, u)))"
    by (simp add: beta_rec_def Let_def logaddexp)
  with False show ?thesis by (simp add: exp_add)
qed

lemma forward_backward_agree:
  fixes al be :: "nat \<times> nat \<Rightarrow> real"
  assumes M: "0 < T b"
    and al: "\<And>t u. t < T b \<Longrightarrow> u \<le> U b \<Longrightarrow> al (t, u) = alpha_rec lp labels blank b al t u"
    and be: "\<And>t u. t < T b \<Longrightarrow> u \<le> U b \<Longrightarrow> be (t, u) = beta_rec lp labels T U blank b be t u"
  shows "al (T b - 1, U b) + lp (b, T b - 1, U b, blank) = be (0, 0)"
proof -
  define N where "N = U b"
  define M where "M = T b"
  define a where "a = (\<lambda>t u. exp (al (t, u)))"
  define bt where "bt = (\<lambda>t u. exp (be (t, u)))"
  define pb where "pb = (\<lambda>t u. exp (lp (b, t, u, blank)))"
  define pe where "pe = (\<lambda>t u. exp (lp (b, t, u, labels (b, u))))"
  define c where "c = (\<lambda>t u. if t = 0 then (if u = 0 then 1 else 0) else a (t - 1) u * pb (t - 1) u)"
  define d where "d = (\<lambda>t u. if t + 1 = M then (if u = N then pb t u else 0)
                            else bt (t + 1) u * pb t u)"
  define R where "R = (\<lambda>t. \<Sum>u\<le>N. a t u * d t u)"
  have a0: "a t 0 = c t 0" if "t < M" for t
    using arg_cong [OF al [of t 0], of exp] that
    by (simp add: a_def c_def pb_def M_def N_def exp_alpha_rec)
  have aS: "a t (Suc u) = c t (Suc u) + a t u * pe t u" if "t < M" "u < N" for t u
    using arg_cong [OF al [of t "Suc u"], of exp] that
    by (simp add: a_def c_def pb_def pe_def M_def N_def exp_alpha_rec)
  have bN: "bt t N = d t N" if "t < M" for t
    using arg_cong [OF be [of t N], of exp] that
    by (simp add: bt_def d_def pb_def M_def N_def exp_beta_rec)
  have bS: "bt t u = d t u + pe t u * bt t (Suc u)" if "t < M" "u < N" for t u
    using arg_cong [OF be [of t u], of exp] that
    by (simp add: bt_def d_def pb_def pe_def M_def N_def exp_beta_rec algebra_simps)
  have row: "(\<Sum>u\<le>N. c t u * bt t u) = R t" if "t < M" for t
    unfolding R_def
    by (rule chain_adjoint [where e = "pe t"]) (simp_all add: a0 aS bN bS that)
  have shift: "R (Suc t) = R t" if "Suc t < M" for t
  proof -
    have "R (Suc t) = (\<Sum>u\<le>N. c (Suc t) u * bt (Suc t) u)"
      using row [OF that] by simp
    also have "\<dots> = (\<Sum>u\<le>N. a t u * d t u)"
      using that by (intro sum.cong) (auto simp: c_def d_def)
    finally show ?thesis by (simp add: R_def)
  qed
  have const: "R t = R 0" if "t < M" for t
    using that by (induction t) (simp_all add: shift)
  have "R 0 = (\<Sum>u\<le>N. c 0 u * bt 0 u)"
    using row [of 0] M by (simp add: M_def)
  also have "\<dots> = (\<Sum>u\<le>N. if u = 0 then bt 0 0 else 0)"
    by (intro sum.cong) (auto simp: c_def)
  also have "\<dots> = bt 0 0"
    by (simp add: sum.delta')
  finally have R0: "R 0 = bt 0 0" .
  have "R (M - 1) = (\<Sum>u\<le>N. if u = N then a (M - 1) N * pb (M - 1) N else 0)"
    unfolding R_def using M by (intro sum.cong) (auto simp: d_def M_def)
  also have "\<dots> = a (M - 1) N * pb (M - 1) N"
    by (simp add: sum.delta')
  finally have "a (M - 1) N * pb (M - 1) N = bt 0 0"
    using const [of "M - 1"] R0 M by (simp add: M_def)
  then have "exp (al (T b - 1, U b) + lp (b, T b - 1, U b, blank)) = exp (be (0, 0))"
    by (simp add: a_def pb_def bt_def M_def N_def exp_add)
  then show ?thesis by simp
qed


lemma forward_sweep_table:
  assumes run: "cu_kernel_forward md maxT maxU lp labels T U blank b sched = Inr s"
    and U: "U b < maxU" and t: "t < T b" and u: "u \<le> U b"
  shows "tab s (t, u) = alpha_rec lp labels blank b (tab s) t u"
proof -
  from run have r: "run_sched (cu_kernel_forward_step md maxT maxU lp labels T U blank b)
                      maxU sched finit = Inr s"
    and f: "\<forall>u < maxU. fin s u"
    by (auto simp: cu_kernel_forward_def split: sum.splits if_splits)
  from finv_run [OF r finv_init U] have inv: "finv lp labels T U blank b s" .
  from f u U have "fin s u" by simp
  with inv u have "tpos s u = T b" by (simp add: finv_def)
  with inv u t show ?thesis by (simp add: finv_def)
qed

lemma backward_sweep_table:
  assumes run: "cu_kernel_backward md maxU lp labels T U blank b sched = Inr s"
    and U: "U b < maxU"
  shows "t < T b \<Longrightarrow> u \<le> U b \<Longrightarrow> btab s (t, u) = beta_rec lp labels T U blank b (btab s) t u"
    and "blogp s = btab s (0, 0)"
proof -
  from run have r: "run_sched (cu_kernel_backward_step md maxU lp labels T U blank b)
                      maxU sched (binit (T b)) = Inr s"
    and f: "\<forall>u < maxU. bfin s u"
    by (auto simp: cu_kernel_backward_def split: sum.splits if_splits)
  from binv_run [OF r binv_init U] have inv: "binv lp labels T U blank b s" .
  from f U have "bfin s 0" by simp
  with inv show "blogp s = btab s (0, 0)" by (simp add: binv_def)
  assume t: "t < T b" and u: "u \<le> U b"
  from f u U have "bfin s u" by simp
  with inv u have "btpos s u = - 1" by (simp add: binv_def)
  with inv u t show "btab s (t, u) = beta_rec lp labels T U blank b (btab s) t u"
    by (simp add: binv_def)
qed

text \<open>
  The published forward log-likelihood, for the interleavings in which worker \<open>U[b]\<close>
  is through its column before worker \<open>0\<close> leaves its loop.
\<close>

lemma run_sched_append:
  "run_sched step n (xs @ ys) s =
     (case run_sched step n xs s of Inl e \<Rightarrow> Inl e | Inr s' \<Rightarrow> run_sched step n ys s')"
  by (induction xs arbitrary: s) (auto split: sum.splits)

lemma fpub_step:
  assumes inv: "fpub lp labels T U blank b s"
    and step: "cu_kernel_forward_step md maxT maxU lp labels T U blank b u s = Inr s'"
    and T: "0 < T b" "T b \<le> maxT" and U: "U b < maxU" and u: "u < maxU"
  shows "fpub lp labels T U blank b s'"
proof -
  from inv have finv: "finv lp labels T U blank b s" and fill: "tpos s (U b) = T b"
    and pub: "fin s 0 \<Longrightarrow> logp s = tab s (T b - 1, U b) + lp (b, T b - 1, U b, blank)"
    by (simp_all add: fpub_def)
  have finv': "finv lp labels T U blank b s'"
    by (rule finv_step [OF finv step U u])
  from step U u show ?thesis
  proof (cases rule: forward_step_cases)
    case idle
    with inv show ?thesis by simp
  next
    case first
    from first(3) fill have "U b \<noteq> 0" by (intro notI) simp
    with first(6) fill have a: "tpos s' (U b) = T b" by simp
    from first(2,7) have b: "\<not> fin s' 0" by simp
    from finv' a b show ?thesis unfolding fpub_def by blast
  next
    case inner
    from inner(4) fill have ne: "u \<noteq> U b" by (intro notI) simp
    with inner(8) fill have a: "tpos s' (U b) = T b" by simp
    from ne inner(6) have c: "tab s' (T b - 1, U b) = tab s (T b - 1, U b)" by simp
    have "logp s' = tab s' (T b - 1, U b) + lp (b, T b - 1, U b, blank)" if "fin s' 0"
      using pub that inner(9,10) c by simp
    with finv' a show ?thesis unfolding fpub_def by blast
  next
    case exit
    show ?thesis
    proof (cases "u = 0")
      case True
      from exit(8) [OF True] obtain tlast where
        r: "resolve md maxT (int (T b) - 1) = Some tlast"
        and l: "logp s' = tab s (tlast, U b) + lp (b, tlast, U b, blank)"
        by blast
      from T resolve_nat [of "T b - 1" maxT md]
      have "resolve md maxT (int (T b) - 1) = Some (T b - 1)" by simp
      with r have "tlast = T b - 1" by simp
      with l exit(3) have "logp s' = tab s' (T b - 1, U b) + lp (b, T b - 1, U b, blank)"
        by simp
      moreover from exit(5) fill have "tpos s' (U b) = T b" by simp
      ultimately show ?thesis using finv' unfolding fpub_def by blast
    next
      case False
      have "logp s' = tab s' (T b - 1, U b) + lp (b, T b - 1, U b, blank)" if "fin s' 0"
      proof -
        from that False exit(6) have "fin s 0" by simp
        from pub [OF this] exit(3) exit(7) [OF False] show ?thesis by simp
      qed
      moreover from exit(5) fill have "tpos s' (U b) = T b" by simp
      ultimately show ?thesis using finv' unfolding fpub_def by blast
    qed
  qed
qed

lemma fpub_run:
  assumes "run_sched (cu_kernel_forward_step md maxT maxU lp labels T U blank b) maxU sched s
             = Inr s'"
    and "fpub lp labels T U blank b s" and "0 < T b" "T b \<le> maxT" and "U b < maxU"
  shows "fpub lp labels T U blank b s'"
  using assms
proof (induction sched arbitrary: s)
  case Nil
  then show ?case by simp
next
  case (Cons u us)
  show ?case
  proof (cases "u < maxU")
    case True
    with Cons.prems(1) obtain s1 where
      s1: "cu_kernel_forward_step md maxT maxU lp labels T U blank b u s = Inr s1"
      and rest: "run_sched (cu_kernel_forward_step md maxT maxU lp labels T U blank b) maxU us s1
             = Inr s'"
      by (auto split: sum.splits)
    from fpub_step [OF Cons.prems(2) s1 Cons.prems(3,4,5) True] rest Cons.IH Cons.prems(3,4,5)
    show ?thesis by blast
  next
    case False
    with Cons show ?thesis by simp
  qed
qed

lemma forward_loglik_published:
  assumes run: "cu_kernel_forward md maxT maxU lp labels T U blank b (xs @ ys) = Inr s"
    and pre: "run_sched (cu_kernel_forward_step md maxT maxU lp labels T U blank b) maxU xs finit
                = Inr s1"
    and s1: "\<not> fin s1 0" "tpos s1 (U b) = T b"
    and T: "0 < T b" "T b \<le> maxT" and U: "U b < maxU"
  shows "logp s = tab s (T b - 1, U b) + lp (b, T b - 1, U b, blank)"
proof -
  from run pre have rest: "run_sched (cu_kernel_forward_step md maxT maxU lp labels T U blank b)
                      maxU ys s1 = Inr s"
    and f: "\<forall>u < maxU. fin s u"
    by (auto simp: cu_kernel_forward_def run_sched_append split: sum.splits if_splits)
  from finv_run [OF pre finv_init U] s1 have "fpub lp labels T U blank b s1"
    by (simp add: fpub_def)
  from fpub_run [OF rest this T U] f U show ?thesis by (simp add: fpub_def)
qed

text \<open>
  For a batch element with \<open>0 < T[b] \<le> T_max\<close> and \<open>U[b] < U_max\<close>, however the workers
  of the two sweeps were interleaved: the forward log-likelihood
  \<open>alpha[T[b]-1, U[b]] + log_probs[b, T[b]-1, U[b], blank]\<close> of the finished alpha table
  equals \<open>beta[b, 0, 0]\<close>, which is the value the backward sweep wrote to \<open>log_p_beta[b]\<close>;
  and the value the forward sweep wrote to \<open>log_p_alpha[b]\<close> is that same number in every
  run in which worker \<open>U[b]\<close> is through its column before worker \<open>0\<close> leaves its loop.
  The equalities are exact, over the reals.
\<close>

lemma sweeps_agree:
  assumes "cu_kernel_forward md maxT maxU lp labels T U blank b fs = Inr sa"
    and "cu_kernel_backward md maxU lp labels T U blank b bs = Inr sb"
    and "0 < T b" and "T b \<le> maxT" and "U b < maxU"
  shows "tab sa (T b - 1, U b) + lp (b, T b - 1, U b, blank) = btab sb (0, 0) \<and>
         blogp sb = btab sb (0, 0) \<and>
         (\<forall>xs ys s1.
            fs = xs @ ys \<and>
            run_sched (cu_kernel_forward_step md maxT maxU lp labels T U blank b) maxU xs finit
              = Inr s1 \<and>
            \<not> fin s1 0 \<and> tpos s1 (U b) = T b \<longrightarrow> logp sa = blogp sb)"
proof (intro conjI allI impI)
  show eq: "tab sa (T b - 1, U b) + lp (b, T b - 1, U b, blank) = btab sb (0, 0)"
    using assms(3)
  proof (rule forward_backward_agree [where T = T and U = U and b = b and labels = labels])
    fix t u assume "t < T b" "u \<le> U b"
    then show "tab sa (t, u) = alpha_rec lp labels blank b (tab sa) t u"
      by (rule forward_sweep_table [OF assms(1,5)])
  next
    fix t u assume "t < T b" "u \<le> U b"
    then show "btab sb (t, u) = beta_rec lp labels T U blank b (btab sb) t u"
      by (rule backward_sweep_table(1) [OF assms(2,5)])
  qed
  show pub: "blogp sb = btab sb (0, 0)"
    by (rule backward_sweep_table(2) [OF assms(2,5)])
  fix xs ys s1
  assume a: "fs = xs @ ys \<and>
            run_sched (cu_kernel_forward_step md maxT maxU lp labels T U blank b) maxU xs finit
              = Inr s1 \<and>
            \<not> fin s1 0 \<and> tpos s1 (U b) = T b"
  then have run: "cu_kernel_forward md maxT maxU lp labels T U blank b (xs @ ys) = Inr sa"
    using assms(1) by simp
  from a have pre: "run_sched (cu_kernel_forward_step md maxT maxU lp labels T U blank b)
                      maxU xs finit = Inr s1"
    and s1: "\<not> fin s1 0" "tpos s1 (U b) = T b"
    by simp_all
  have "logp sa = tab sa (T b - 1, U b) + lp (b, T b - 1, U b, blank)"
    by (rule forward_loglik_published [OF run pre s1 assms(3,4,5)])
  with eq pub show "logp sa = blogp sb" by simp
qed

text \<open>The two sweeps of the small invocation agree, and so do the two published values.\<close>

lemma sweeps_agree_demo:
  "\<exists>sa sb s1.
     cu_kernel_forward Strict 1 2 demo_lp demo_labels demo_len demo_len 0 0 [0, 1, 1, 0] = Inr sa \<and>
     cu_kernel_backward Strict 2 demo_lp demo_labels demo_len demo_len 0 0 [1, 0, 0, 1] = Inr sb \<and>
     0 < demo_len 0 \<and> demo_len 0 \<le> 1 \<and> demo_len 0 < 2 \<and>
     [0, 1, 1, 0] = [0, 1] @ [1, 0 :: nat] \<and>
     run_sched (cu_kernel_forward_step Strict 1 2 demo_lp demo_labels demo_len demo_len 0 0) 2
       [0, 1] finit = Inr s1 \<and>
     \<not> fin s1 0 \<and> tpos s1 (demo_len 0) = demo_len 0 \<and>
     tab sa (demo_len 0 - 1, demo_len 0) + demo_lp (0, demo_len 0 - 1, demo_len 0, 0)
       = btab sb (0, 0) \<and>
     blogp sb = btab sb (0, 0) \<and> logp sa = blogp sb"
proof -
  obtain sa where
    f: "cu_kernel_forward Strict 1 2 demo_lp demo_labels demo_len demo_len 0 0 [0, 1, 1, 0] = Inr sa"
    by (simp add: demo_len_def cu_kernel_forward_def cu_kernel_forward_step_def
        finit_def atomic_add_def resolve_def all_less_2 Let_def)
  obtain sb where
    g: "cu_kernel_backward Strict 2 demo_lp demo_labels demo_len demo_len 0 0 [1, 0, 0, 1] = Inr sb"
    by (simp add: demo_len_def cu_kernel_backward_def cu_kernel_backward_step_def
        binit_def atomic_add_def resolve_def all_less_2 Let_def)
  obtain s1 where
    p: "run_sched (cu_kernel_forward_step Strict 1 2 demo_lp demo_labels demo_len demo_len 0 0) 2
          [0, 1] finit = Inr s1"
    and s1: "\<not> fin s1 0" "tpos s1 (demo_len 0) = demo_len 0"
    by (simp add: demo_len_def cu_kernel_forward_step_def finit_def atomic_add_def resolve_def
        Let_def)
  have T: "0 < demo_len 0" "demo_len 0 \<le> 1" and U: "demo_len 0 < 2"
    by (simp_all add: demo_len_def)
  have split: "[0, 1, 1, 0] = [0, 1] @ [1, 0 :: nat]" by simp
  from sweeps_agree [OF f g T U] p s1 split
  have "tab sa (demo_len 0 - 1, demo_len 0) + demo_lp (0, demo_len 0 - 1, demo_len 0, 0)
          = btab sb (0, 0) \<and>
        blogp sb = btab sb (0, 0) \<and> logp sa = blogp sb"
    by blast
  with f g p s1 T U split show ?thesis by blast
qed

text \<open>
  Claim C3, the value written to \<open>log_p_alpha[b]\<close>. Worker \<open>0\<close> reads
  \<open>alpha[T[b]-1, U[b]]\<close> as soon as its own loop is over, and nothing makes it wait for
  worker \<open>U[b]\<close>, who writes that cell. In the small invocation, when worker \<open>0\<close> runs to
  its end before worker \<open>1\<close> starts, the kernel returns with \<open>log_p_alpha = -2\<close>, while
  the finished table gives \<open>alpha[0, 1] + log_probs[0, 0, 1, blank] = -4\<close>. The cells of
  the table themselves satisfy the recurrences in every interleaving
  (\<open>forward_sweep_table\<close>).
\<close>

theorem forward_loglik_race:
  "\<exists>s. cu_kernel_forward Strict 1 2 demo_lp demo_labels demo_len demo_len 0 0 [0, 0, 1, 1] = Inr s \<and>
       logp s = - 2 \<and>
       tab s (demo_len 0 - 1, demo_len 0) + demo_lp (0, demo_len 0 - 1, demo_len 0, 0) = - 4"
  by (simp add: demo_len_def demo_lp_def demo_labels_def cu_kernel_forward_def
      cu_kernel_forward_step_def finit_def atomic_add_def resolve_def all_less_2 Let_def)


text \<open>
  In that run the published value differs from the forward log-likelihood of the
  finished table.
\<close>

theorem forward_loglik_race_witness:
  "\<exists>s. cu_kernel_forward Strict 1 2 demo_lp demo_labels demo_len demo_len 0 0 [0, 0, 1, 1] = Inr s \<and>
       logp s \<noteq> tab s (demo_len 0 - 1, demo_len 0) + demo_lp (0, demo_len 0 - 1, demo_len 0, 0)"
  using forward_loglik_race by force

text \<open>
  Claim C2, the two published values. In the small invocation, a valid batch element,
  let worker \<open>0\<close> of the forward sweep run to its end before worker \<open>1\<close> starts: the
  forward sweep returns with \<open>log_p_alpha = -2\<close> and the backward sweep with
  \<open>log_p_beta = -4\<close>. The two published log-likelihoods differ, although the finished
  tables agree (\<open>sweeps_agree\<close>).
\<close>

theorem loglik_disagree_race:
  "\<exists>sa sb.
     cu_kernel_forward Strict 1 2 demo_lp demo_labels demo_len demo_len 0 0 [0, 0, 1, 1] = Inr sa \<and>
     cu_kernel_backward Strict 2 demo_lp demo_labels demo_len demo_len 0 0 [1, 0, 0, 1] = Inr sb \<and>
     logp sa = - 2 \<and> blogp sb = - 4"
proof -
  have "\<exists>sa. cu_kernel_forward Strict 1 2 demo_lp demo_labels demo_len demo_len 0 0 [0, 0, 1, 1]
              = Inr sa \<and> logp sa = - 2"
    by (simp add: demo_len_def demo_lp_def demo_labels_def cu_kernel_forward_def
        cu_kernel_forward_step_def finit_def atomic_add_def resolve_def all_less_2 Let_def)
  moreover
  have "\<exists>sb. cu_kernel_backward Strict 2 demo_lp demo_labels demo_len demo_len 0 0 [1, 0, 0, 1]
              = Inr sb \<and> blogp sb = - 4"
    by (simp add: demo_len_def demo_lp_def demo_labels_def cu_kernel_backward_def
        cu_kernel_backward_step_def binit_def atomic_add_def resolve_def all_less_2 Let_def)
  ultimately show ?thesis by blast
qed

text \<open>In that run the forward and the backward log-likelihood are not equal.\<close>

theorem loglik_disagree_race_witness:
  "\<exists>sa sb.
     cu_kernel_forward Strict 1 2 demo_lp demo_labels demo_len demo_len 0 0 [0, 0, 1, 1] = Inr sa \<and>
     cu_kernel_backward Strict 2 demo_lp demo_labels demo_len demo_len 0 0 [1, 0, 0, 1] = Inr sb \<and>
     logp sa \<noteq> blogp sb"
  using loglik_disagree_race by force

subsection \<open>The gradient sweep\<close>

lemma foldl_grad_blank:
  "foldl (grad_blank lp al be blank b t) g [0 ..< n] (t', u, k) =
     (if t' = t \<and> u < n \<and> k = blank then
        - exp (al (t, u) + be (t + 1, u) + lp (b, t, u, blank) - be (0, 0))
      else g (t', u, k))"
  by (induction n) (auto simp: grad_blank_def Let_def less_Suc_eq)

lemma foldl_grad_emit:
  "foldl (grad_emit lp labels al be U b t) g [0 ..< n] (t', u, k) =
     (if t' = t \<and> u < n \<and> u < U b \<and> k = labels (b, u) then
        - exp (al (t, u) + be (t, u + 1) + lp (b, t, u, labels (b, u)) - be (0, 0))
      else g (t', u, k))"
  by (induction n) (auto simp: grad_emit_def Let_def less_Suc_eq)

lemma grad_thread_raw:
  "cu_kernel_compute_grad_thread L lp labels al be T U blank b t g (t', u, k) =
     (if t < T b then
        (if t' = t \<and> u < L \<and> u < U b \<and> k = labels (b, u) then
           - exp (al (t, u) + be (t, u + 1) + lp (b, t, u, labels (b, u)) - be (0, 0))
         else if t + 1 < T b \<and> t' = t \<and> u \<le> U b \<and> k = blank then
           - exp (al (t, u) + be (t + 1, u) + lp (b, t, u, blank) - be (0, 0))
         else if t = 0 \<and> t' = T b - 1 \<and> u = U b \<and> k = blank then
           - exp (al (T b - 1, U b) + lp (b, T b - 1, U b, blank) - be (0, 0))
         else g (t', u, k))
      else g (t', u, k))"
proof (cases "t < T b")
  case False
  then show ?thesis by (simp add: cu_kernel_compute_grad_thread_def)
next
  case True
  define g1 where "g1 = (if t = 0 then
                     g((T b - 1, U b, blank) :=
                         - exp (al (T b - 1, U b) + lp (b, T b - 1, U b, blank) - be (0, 0)))
                   else g)"
  define g2 where "g2 = (if t + 1 < T b then
                           foldl (grad_blank lp al be blank b t) g1 [0 ..< U b + 1]
                         else g1)"
  have less: "(int t < int (T b) - 1) = (t + 1 < T b)" by auto
  have r: "cu_kernel_compute_grad_thread L lp labels al be T U blank b t g
             = foldl (grad_emit lp labels al be U b t) g2 [0 ..< L]"
    unfolding cu_kernel_compute_grad_thread_def Let_def g1_def g2_def less
    using True by (simp only: if_True)
  have e1: "g1 (t', u, k) =
      (if t = 0 \<and> t' = T b - 1 \<and> u = U b \<and> k = blank then
         - exp (al (T b - 1, U b) + lp (b, T b - 1, U b, blank) - be (0, 0))
       else g (t', u, k))"
    by (simp add: g1_def)
  have e2: "g2 (t', u, k) =
      (if t + 1 < T b \<and> t' = t \<and> u \<le> U b \<and> k = blank then
         - exp (al (t, u) + be (t + 1, u) + lp (b, t, u, blank) - be (0, 0))
       else g1 (t', u, k))"
    by (simp add: g2_def foldl_grad_blank less_Suc_eq_le del: upt_Suc)
  show ?thesis
    by (simp only: r foldl_grad_emit e2 e1 True if_True)
qed


lemma grad_thread_emit:
  assumes "t < T b" and "u < U b" and "u < L" and "labels (b, u) \<noteq> blank"
  shows "cu_kernel_compute_grad_thread L lp labels al be T U blank b t g (t, u, labels (b, u))
         = grad_cell lp labels al be T U blank b (t, u, labels (b, u))"
  using assms by (simp add: grad_thread_raw grad_cell_def)

lemma grad_thread_blank:
  assumes "t + 1 < T b" and "u \<le> U b" and "u < U b \<Longrightarrow> labels (b, u) \<noteq> blank"
  shows "cu_kernel_compute_grad_thread L lp labels al be T U blank b t g (t, u, blank)
         = grad_cell lp labels al be T U blank b (t, u, blank)"
proof (cases "u < U b")
  case True
  with assms(3) have "blank \<noteq> labels (b, u)" by (intro notI) simp
  with assms(1,2) show ?thesis by (simp add: grad_thread_raw grad_cell_def)
next
  case False
  with assms(1,2) show ?thesis by (simp add: grad_thread_raw grad_cell_def)
qed


lemma grad_thread_final:
  assumes "0 < T b"
  shows "cu_kernel_compute_grad_thread L lp labels al be T U blank b 0 g (T b - 1, U b, blank)
         = grad_cell lp labels al be T U blank b (T b - 1, U b, blank)"
proof -
  from assms have eq: "T b - 1 + 1 = T b" by simp
  have no: "\<not> (0 + 1 < T b \<and> T b - 1 = 0)" by auto
  show ?thesis
    unfolding grad_thread_raw grad_cell_def prod.case eq
    using assms no by simp
qed

lemma grad_thread_none:
  assumes "\<not> grad_writes labels T U blank b t (t', u, k)"
  shows "cu_kernel_compute_grad_thread L lp labels al be T U blank b t g (t', u, k) = g (t', u, k)"
proof (cases "t < T b")
  case False
  then show ?thesis by (simp add: grad_thread_raw)
next
  case True
  then have eq: "(t' = T b - 1) = (t' + 1 = T b)" by auto
  from assms True have
    1: "\<not> (t' = t \<and> u < L \<and> u < U b \<and> k = labels (b, u))" and
    2: "\<not> (t + 1 < T b \<and> t' = t \<and> u \<le> U b \<and> k = blank)" and
    3: "\<not> (t = 0 \<and> t' + 1 = T b \<and> u = U b \<and> k = blank)"
    unfolding grad_writes_def prod.case by blast+
  from 3 have n3: "\<not> (t = 0 \<and> t' = T b - 1 \<and> u = U b \<and> k = blank)"
    unfolding eq .
  show ?thesis
    unfolding grad_thread_raw using 1 2 n3 True by (simp only: if_True if_False)
qed


lemma grad_thread:
  assumes lab: "\<forall>u < U b. labels (b, u) \<noteq> blank" and L: "U b \<le> L"
  shows "cu_kernel_compute_grad_thread L lp labels al be T U blank b t g x =
           (if grad_writes labels T U blank b t x then grad_cell lp labels al be T U blank b x
            else g x)"
proof (cases x)
  case (fields t' u k)
  show ?thesis
  proof (cases "grad_writes labels T U blank b t (t', u, k)")
    case False
    with grad_thread_none [OF False] show ?thesis by (simp only: fields if_False)
  next
    case True
    then have T: "t < T b"
      and w: "t = 0 \<and> t' + 1 = T b \<and> u = U b \<and> k = blank \<or>
              t' = t \<and> t + 1 < T b \<and> u \<le> U b \<and> k = blank \<or>
              t' = t \<and> u < U b \<and> k = labels (b, u)"
      unfolding grad_writes_def prod.case by blast+
    have "cu_kernel_compute_grad_thread L lp labels al be T U blank b t g (t', u, k)
          = grad_cell lp labels al be T U blank b (t', u, k)"
      using w
    proof (elim disjE conjE)
      assume a: "t = 0" "t' + 1 = T b" "u = U b" "k = blank"
      from a(2) have t': "t' = T b - 1" and pos: "0 < T b" by simp_all
      show ?thesis
        unfolding t' a(1,3,4)
        by (rule grad_thread_final [where T = T and b = b, OF pos])
    next
      assume a: "t' = t" "t + 1 < T b" "u \<le> U b" "k = blank"
      have "u < U b \<Longrightarrow> labels (b, u) \<noteq> blank" using lab by simp
      from grad_thread_blank [where T = T and b = b and U = U and labels = labels,
          OF a(2,3) this] a(1,4)
      show ?thesis by simp
    next
      assume a: "t' = t" "u < U b" "k = labels (b, u)"
      from a(2) lab have "labels (b, u) \<noteq> blank" by simp
      moreover from a(2) L have "u < L" by simp
      ultimately show ?thesis
        using grad_thread_emit [where T = T and b = b and U = U and labels = labels,
            OF T a(2)] a(1,3)
        by simp
    qed
    with True show ?thesis by (simp only: fields if_True)
  qed
qed

lemma foldl_grad_threads:
  assumes lab: "\<forall>u < U b. labels (b, u) \<noteq> blank" and L: "U b \<le> L"
  shows "foldl (\<lambda>g t. cu_kernel_compute_grad_thread L lp labels al be T U blank b t g) g0 ord x =
           (if \<exists>t \<in> set ord. grad_writes labels T U blank b t x
            then grad_cell lp labels al be T U blank b x else g0 x)"
proof (induction ord arbitrary: g0)
  case Nil
  show ?case by simp
next
  case (Cons t ts)
  let ?f = "\<lambda>g t. cu_kernel_compute_grad_thread L lp labels al be T U blank b t g"
  have "foldl ?f g0 (t # ts) x = foldl ?f (?f g0 t) ts x" by simp
  also have "\<dots> = (if \<exists>t \<in> set ts. grad_writes labels T U blank b t x
                    then grad_cell lp labels al be T U blank b x else ?f g0 t x)"
    by (rule Cons.IH)
  also have "?f g0 t x = (if grad_writes labels T U blank b t x
                          then grad_cell lp labels al be T U blank b x else g0 x)"
    by (rule grad_thread [where U = U and b = b and labels = labels, OF lab L])
  finally show ?case by auto
qed

lemma grad_cell_unwritten:
  assumes "T b \<le> maxT" and "\<not> (\<exists>t < maxT. grad_writes labels T U blank b t x)"
  shows "grad_cell lp labels al be T U blank b x = 0"
proof (cases x)
  case (fields t' u k)
  from assms(2) have no: "\<And>t. t < maxT \<Longrightarrow> \<not> grad_writes labels T U blank b t (t', u, k)"
    by (simp add: fields)
  have 1: "\<not> (t' + 1 = T b \<and> u = U b \<and> k = blank)"
  proof
    assume a: "t' + 1 = T b \<and> u = U b \<and> k = blank"
    with assms(1) have "0 < maxT" by simp
    from no [OF this] a show False by (simp add: grad_writes_def)
  qed
  have 2: "\<not> (t' < T b \<and> (t' + 1 < T b \<and> u \<le> U b \<and> k = blank \<or> u < U b \<and> k = labels (b, u)))"
  proof
    assume a: "t' < T b \<and> (t' + 1 < T b \<and> u \<le> U b \<and> k = blank \<or> u < U b \<and> k = labels (b, u))"
    with assms(1) have "t' < maxT" by simp
    from no [OF this] a show False by (auto simp: grad_writes_def)
  qed
  from 1 2 show ?thesis by (auto simp: grad_cell_def fields)
qed

text \<open>
  Claim C4. For a batch element with \<open>0 < T[b] \<le> T_max\<close>, a label row that covers the
  \<open>U[b]\<close> targets, and targets different from the blank symbol, the gradient sweep on a
  zeroed buffer leaves exactly the lattice \<open>grad_cell\<close>, in whatever order its workers
  run: the terminal blank cell \<open>(T[b]-1, U[b], blank)\<close>, the blank cells \<open>(t, u, blank)\<close>
  for \<open>t < T[b]-1\<close> and \<open>u \<le> U[b]\<close>, the emit cells \<open>(t, u, labels[u])\<close> for \<open>t < T[b]\<close>
  and \<open>u < U[b]\<close>, each with the value of the claim and \<open>loglik = beta[b, 0, 0]\<close>, and
  zero everywhere else.
\<close>

theorem gradient_lattice:
  assumes "cu_kernel_compute_grad maxT L lp labels al be (\<lambda>_. 0) T U blank b ord = Inr g"
    and "0 < T b" and "T b \<le> maxT" and "U b \<le> L"
    and "\<forall>u < U b. labels (b, u) \<noteq> blank"
  shows "g = grad_cell lp labels al be T U blank b"
proof
  fix x
  from assms(1) have ord: "set ord = set [0 ..< maxT]"
    and g: "g = foldl (\<lambda>g t. cu_kernel_compute_grad_thread L lp labels al be T U blank b t g)
                 (\<lambda>_. 0) ord"
    by (auto simp: cu_kernel_compute_grad_def split: if_splits)
  have "g x = (if \<exists>t \<in> set ord. grad_writes labels T U blank b t x
               then grad_cell lp labels al be T U blank b x else 0)"
    unfolding g
    by (rule foldl_grad_threads [where U = U and b = b and labels = labels, OF assms(5,4)])
  moreover have "grad_cell lp labels al be T U blank b x = 0"
    if "\<not> (\<exists>t \<in> set ord. grad_writes labels T U blank b t x)"
    using that ord
      grad_cell_unwritten [where T = T and b = b and labels = labels and U = U and x = x,
        OF assms(3)]
    by auto
  ultimately show "g x = grad_cell lp labels al be T U blank b x" by auto
qed
text \<open>The gradient sweep of the small invocation, on tables of zeros.\<close>

theorem gradient_lattice_witness:
  "\<exists>g. cu_kernel_compute_grad 1 1 demo_lp demo_labels (\<lambda>_. 0) (\<lambda>_. 0) (\<lambda>_. 0) demo_len demo_len
          0 0 [0] = Inr g \<and>
       0 < demo_len 0 \<and> demo_len 0 \<le> 1 \<and> (\<forall>u < demo_len 0. demo_labels (0, u) \<noteq> 0) \<and>
       g = grad_cell demo_lp demo_labels (\<lambda>_. 0) (\<lambda>_. 0) demo_len demo_len 0 0"
proof -
  obtain g where
    g: "cu_kernel_compute_grad 1 1 demo_lp demo_labels (\<lambda>_. 0) (\<lambda>_. 0) (\<lambda>_. 0) demo_len
          demo_len 0 0 [0] = Inr g"
    by (simp add: cu_kernel_compute_grad_def)
  have T: "0 < demo_len 0" "demo_len 0 \<le> 1" by (simp_all add: demo_len_def)
  have l: "\<forall>u < demo_len 0. demo_labels (0, u) \<noteq> 0" by (simp add: demo_labels_def)
  from gradient_lattice [OF g T(1) T(2) T(2) l] g T l show ?thesis by blast
qed

subsection \<open>The doctest scenario\<close>

lemma alignments_1_2:
  "alignments (Suc 0) (Suc (Suc 0)) =
     [[NoEmit, Emit, Emit], [Emit, NoEmit, Emit], [Emit, Emit, NoEmit]]"
  by simp

lemma scenario_paths:
  fixes al :: "nat \<times> nat \<Rightarrow> real"
  assumes T: "T b = 2" and U: "U b = 2"
    and al: "\<And>t u. t < T b \<Longrightarrow> u \<le> U b \<Longrightarrow> al (t, u) = alpha_rec lp labels blank b al t u"
  shows "exp (al (1, 2) + lp (b, 1, 2, blank)) =
           sum_list (map (\<lambda>p. exp (path_logprob lp labels blank b 0 0 p))
                      (alignments (T b - 1) (U b)))"
proof -
  have e: "exp (al (t, u)) = exp (alpha_rec lp labels blank b al t u)" if "t < 2" "u \<le> 2" for t u
    using al [of t u] that T U by simp
  have a00: "exp (al (0, 0)) = 1" using e [of 0 0] by (simp add: exp_alpha_rec)
  have a01: "exp (al (0, 1)) = exp (lp (b, 0, 0, labels (b, 0)))"
    using e [of 0 1] a00 by (simp add: exp_alpha_rec)
  have a02: "exp (al (0, 2)) = exp (lp (b, 0, 0, labels (b, 0))) * exp (lp (b, 0, 1, labels (b, 1)))"
    using e [of 0 2] a01 by (simp add: exp_alpha_rec)
  have a10: "exp (al (1, 0)) = exp (lp (b, 0, 0, blank))"
    using e [of 1 0] a00 by (simp add: exp_alpha_rec)
  have a11: "exp (al (1, 1)) =
      exp (lp (b, 0, 0, labels (b, 0))) * exp (lp (b, 0, 1, blank)) +
      exp (lp (b, 0, 0, blank)) * exp (lp (b, 1, 0, labels (b, 0)))"
    using e [of 1 1] a01 a10 by (simp add: exp_alpha_rec)
  have a12: "exp (al (1, 2)) =
      exp (lp (b, 0, 0, labels (b, 0))) * exp (lp (b, 0, 1, labels (b, 1))) * exp (lp (b, 0, 2, blank)) +
      (exp (lp (b, 0, 0, labels (b, 0))) * exp (lp (b, 0, 1, blank)) +
       exp (lp (b, 0, 0, blank)) * exp (lp (b, 1, 0, labels (b, 0)))) *
        exp (lp (b, 1, 1, labels (b, 1)))"
    using e [of 1 2] a02 a11 by (simp add: exp_alpha_rec)
  have two: "(2::nat) = Suc (Suc 0)" by simp
  have "sum_list (map (\<lambda>p. exp (path_logprob lp labels blank b 0 0 p))
                      (alignments (T b - 1) (U b))) =
        exp (lp (b, 0, 0, blank) + (lp (b, 1, 0, labels (b, 0)) +
            (lp (b, 1, 1, labels (b, 1)) + lp (b, 1, 2, blank)))) +
        (exp (lp (b, 0, 0, labels (b, 0)) + (lp (b, 0, 1, blank) +
            (lp (b, 1, 1, labels (b, 1)) + lp (b, 1, 2, blank)))) +
         exp (lp (b, 0, 0, labels (b, 0)) + (lp (b, 0, 1, labels (b, 1)) +
            (lp (b, 0, 2, blank) + lp (b, 1, 2, blank)))))"
    unfolding T U by (simp add: two alignments_1_2 del: alignments.simps)
  also have "\<dots> =
      (exp (lp (b, 0, 0, labels (b, 0))) * exp (lp (b, 0, 1, labels (b, 1))) * exp (lp (b, 0, 2, blank)) +
      (exp (lp (b, 0, 0, labels (b, 0))) * exp (lp (b, 0, 1, blank)) +
       exp (lp (b, 0, 0, blank)) * exp (lp (b, 1, 0, labels (b, 0)))) *
        exp (lp (b, 1, 1, labels (b, 1)))) * exp (lp (b, 1, 2, blank))"
    by (simp add: exp_add algebra_simps)
  also have "\<dots> = exp (al (1, 2) + lp (b, 1, 2, blank))"
    by (simp only: exp_add a12)
  finally show ?thesis by simp
qed


lemma scenario_loss:
  assumes run: "Transducer_forward md 1 2 3 5 2 lp scn_labels scn_len scn_len 0 r sch heap
                  = Inr (out, c, heap')"
    and sched: "fsched sch 0 = xs @ ys"
    and pre: "run_sched (cu_kernel_forward_step md 2 3 lp scn_labels scn_len scn_len 0 0) 3 xs
                finit = Inr s1"
    and s1: "\<not> fin s1 0" "tpos s1 2 = 2"
  shows "out = (if r = ''none'' then Vector [brute_force_loss lp scn_labels scn_len scn_len 0 0]
                else Scalar (brute_force_loss lp scn_labels scn_len scn_len 0 0))"
proof (cases rule: Transducer_forward_cases [of md 1 2 3 5 2 lp scn_labels scn_len scn_len 0 sch heap])
  case (fail e)
  with run show ?thesis by simp
next
  case (ok v c' h)
  from ok(3) [of 0] obtain fa ba where
    fa: "cu_kernel_forward md 2 3 lp scn_labels scn_len scn_len 0 0 (fsched sch 0) = Inr fa"
    and ba: "cu_kernel_backward md 3 lp scn_labels scn_len scn_len 0 0 (bsched sch 0) = Inr ba"
    and v0: "v ! 0 = - (logp fa + blogp ba) / 2"
    by auto
  have T: "0 < scn_len 0" "scn_len 0 \<le> 2" and U: "scn_len 0 < 3"
    by (simp_all add: scn_len_def)
  have len: "scn_len 0 = 2" by (simp add: scn_len_def)
  let ?X = "tab fa (1, 2) + lp (0, 1, 2, 0)"
  have al: "tab fa (t, u) = alpha_rec lp scn_labels 0 0 (tab fa) t u"
    if "t < scn_len 0" "u \<le> scn_len 0" for t u
    using that by (rule forward_sweep_table [OF fa U])
  have be: "btab ba (t, u) = beta_rec lp scn_labels scn_len scn_len 0 0 (btab ba) t u"
    if "t < scn_len 0" "u \<le> scn_len 0" for t u
    using that by (rule backward_sweep_table(1) [OF ba U])
  from s1(2) have s1': "tpos s1 (scn_len 0) = scn_len 0" by (simp add: len)
  have "logp fa = tab fa (scn_len 0 - 1, scn_len 0) + lp (0, scn_len 0 - 1, scn_len 0, 0)"
    by (rule forward_loglik_published [OF fa [unfolded sched] pre s1(1) s1' T U])
  then have lf: "logp fa = ?X" by (simp add: len)
  have "tab fa (scn_len 0 - 1, scn_len 0) + lp (0, scn_len 0 - 1, scn_len 0, 0) = btab ba (0, 0)"
    by (rule forward_backward_agree [where T = scn_len and U = scn_len and b = 0
          and labels = scn_labels, OF T(1) al be])
  moreover have "blogp ba = btab ba (0, 0)"
    by (rule backward_sweep_table(2) [OF ba U])
  ultimately have lb: "blogp ba = ?X" by (simp add: len)
  have "exp ?X = sum_list (map (\<lambda>p. exp (path_logprob lp scn_labels 0 0 0 0 p))
                      (alignments (scn_len 0 - 1) (scn_len 0)))"
    by (rule scenario_paths [where T = scn_len and U = scn_len, OF len len al])
  then have "ln (sum_list (map (\<lambda>p. exp (path_logprob lp scn_labels 0 0 0 0 p))
                      (alignments (scn_len 0 - 1) (scn_len 0)))) = ?X"
    by (metis ln_exp)
  then have bf: "brute_force_loss lp scn_labels scn_len scn_len 0 0 = - ?X"
    by (simp add: brute_force_loss_def)
  from v0 lf lb bf have "v ! 0 = brute_force_loss lp scn_labels scn_len scn_len 0 0" by simp
  moreover from ok(2) have "v = [v ! 0]"
    by (cases v) auto
  ultimately have v: "v = [brute_force_loss lp scn_labels scn_len scn_len 0 0]" by simp
  from run ok(1) [of r] show ?thesis
    by (auto simp: v split: if_splits)
qed


lemma all_less_3: "(\<forall>u<(3::nat). P u) = (P 0 \<and> P 1 \<and> P 2)"
proof -
  have "u < 3 \<longleftrightarrow> u = 0 \<or> u = 1 \<or> u = 2" for u :: nat by auto
  then show ?thesis by auto
qed

lemma scn_prefix:
  "\<exists>s1. run_sched (cu_kernel_forward_step Strict 2 3 lp scn_labels scn_len scn_len 0 0) 3
           [0, 0, 1, 1, 2, 2] finit = Inr s1 \<and> \<not> fin s1 0 \<and> tpos s1 2 = 2"
  by (simp add: scn_len_def cu_kernel_forward_step_def finit_def atomic_add_def resolve_def
      Let_def)

lemma scn_forward_runs:
  "\<exists>s. cu_kernel_forward Strict 2 3 lp scn_labels scn_len scn_len 0 0
          [0, 0, 1, 1, 2, 2, 0, 1, 2] = Inr s"
  by (simp add: scn_len_def cu_kernel_forward_def cu_kernel_forward_step_def finit_def
      atomic_add_def resolve_def all_less_3 Let_def)

lemma scn_backward_runs:
  "\<exists>s. cu_kernel_backward Strict 3 lp scn_labels scn_len scn_len 0 0
          [2, 2, 1, 1, 0, 0, 0, 1, 2] = Inr s"
  by (simp add: scn_len_def cu_kernel_backward_def cu_kernel_backward_step_def binit_def
      atomic_add_def resolve_def all_less_3 Let_def)


lemma scn_runs:
  "\<exists>x. Transducer_forward Strict 1 2 3 5 2 lp scn_labels scn_len scn_len 0 ''mean'' scn_sch []
         = Inr x"
proof -
  have two: "[0 ..< 2] = [0, Suc 0]" by (simp add: upt_rec)
  show ?thesis
    by (simp add: Transducer_forward_def launch_def scn_sch_def scn_len_def
        cu_kernel_compute_grad_def two cu_kernel_forward_def cu_kernel_forward_step_def finit_def
        cu_kernel_backward_def cu_kernel_backward_step_def binit_def atomic_add_def resolve_def
        all_less_3 Let_def)
qed

text \<open>
  Claim C1, amended. The scenario has three monotonic alignments, not two. In every run
  in which worker \<open>2\<close> of the forward sweep is through its column before worker \<open>0\<close>
  leaves its loop (the schedule is \<open>xs @ ys\<close>, and after \<open>xs\<close> column \<open>2\<close> is filled while
  worker \<open>0\<close> has not returned), the loss that \<^verbatim>\<open>Transducer.forward\<close> returns is the
  negated log-sum-exp over the path log-probabilities of the three alignments, for every
  lattice of log-probabilities and each of the three reductions.
\<close>

theorem scenario_loss_is_brute_force:
  assumes "Transducer_forward md 1 2 3 5 2 lp scn_labels scn_len scn_len 0 r sch heap
             = Inr (out, c, heap')"
    and "fsched sch 0 = xs @ ys"
    and "run_sched (cu_kernel_forward_step md 2 3 lp scn_labels scn_len scn_len 0 0) 3 xs
           finit = Inr s1"
    and "\<not> fin s1 0" and "tpos s1 2 = 2"
  shows "length (alignments (scn_len 0 - 1) (scn_len 0)) = 3 \<and>
         out = (if r = ''none'' then Vector [brute_force_loss lp scn_labels scn_len scn_len 0 0]
                else Scalar (brute_force_loss lp scn_labels scn_len scn_len 0 0))"
proof
  show "length (alignments (scn_len 0 - 1) (scn_len 0)) = 3"
    by (simp add: scn_len_def numeral_2_eq_2)
  show "out = (if r = ''none'' then Vector [brute_force_loss lp scn_labels scn_len scn_len 0 0]
                else Scalar (brute_force_loss lp scn_labels scn_len scn_len 0 0))"
    using assms by (rule scenario_loss)
qed

text \<open>The scenario on the uniform lattice, run column by column.\<close>

theorem scenario_loss_is_brute_force_witness:
  "\<exists>out c h s1.
     Transducer_forward Strict 1 2 3 5 2 scn_lp scn_labels scn_len scn_len 0 ''mean'' scn_sch []
       = Inr (out, c, h) \<and>
     fsched scn_sch 0 = [0, 0, 1, 1, 2, 2] @ [0, 1, 2] \<and>
     run_sched (cu_kernel_forward_step Strict 2 3 scn_lp scn_labels scn_len scn_len 0 0) 3
       [0, 0, 1, 1, 2, 2] finit = Inr s1 \<and>
     \<not> fin s1 0 \<and> tpos s1 2 = 2 \<and>
     length (alignments (scn_len 0 - 1) (scn_len 0)) = 3 \<and>
     out = Scalar (brute_force_loss scn_lp scn_labels scn_len scn_len 0 0)"
proof -
  obtain out c h where
    run: "Transducer_forward Strict 1 2 3 5 2 scn_lp scn_labels scn_len scn_len 0 ''mean'' scn_sch []
       = Inr (out, c, h)"
    using scn_runs [of scn_lp] by auto
  obtain s1 where
    pre: "run_sched (cu_kernel_forward_step Strict 2 3 scn_lp scn_labels scn_len scn_len 0 0) 3
       [0, 0, 1, 1, 2, 2] finit = Inr s1"
    and s1: "\<not> fin s1 0" "tpos s1 2 = 2"
    using scn_prefix [of scn_lp] by blast
  have sched: "fsched scn_sch 0 = [0, 0, 1, 1, 2, 2] @ [0, 1, 2]"
    by (simp add: scn_sch_def)
  from scenario_loss_is_brute_force [OF run sched pre s1] run sched pre s1
  show ?thesis by auto
qed

text \<open>
  Claim C1 as stated fails: the scenario does not have two alignments, and on the
  uniform lattice the returned loss is \<open>- ln (3 / 5\<^sup>4)\<close>, while the log-sum-exp over two
  alignments gives \<open>- ln (2 / 5\<^sup>4)\<close>.
\<close>

theorem two_alignments_counterexample:
  "length (alignments (scn_len 0 - 1) (scn_len 0)) \<noteq> 2 \<and>
   map_sum id fst
     (Transducer_forward Strict 1 2 3 5 2 scn_lp scn_labels scn_len scn_len 0 ''mean'' scn_sch [])
     = Inr (Scalar (- ln (3 / 5 ^ 4))) \<and>
   - ln (exp (path_logprob scn_lp scn_labels 0 0 0 0 [NoEmit, Emit, Emit]) +
         exp (path_logprob scn_lp scn_labels 0 0 0 0 [Emit, NoEmit, Emit]))
     = - ln (2 / 5 ^ 4) \<and>
   - ln (3 / 5 ^ 4) \<noteq> - ln (2 / 5 ^ 4 :: real)"
proof -
  obtain out c h where
    run: "Transducer_forward Strict 1 2 3 5 2 scn_lp scn_labels scn_len scn_len 0 ''mean'' scn_sch []
       = Inr (out, c, h)"
    using scn_runs [of scn_lp] by auto
  obtain s1 where
    pre: "run_sched (cu_kernel_forward_step Strict 2 3 scn_lp scn_labels scn_len scn_len 0 0) 3
       [0, 0, 1, 1, 2, 2] finit = Inr s1"
    and s1: "\<not> fin s1 0" "tpos s1 2 = 2"
    using scn_prefix [of scn_lp] by blast
  have sched: "fsched scn_sch 0 = [0, 0, 1, 1, 2, 2] @ [0, 1, 2]"
    by (simp add: scn_sch_def)
  have e5: "exp (- (4 * ln 5)) = (1 / 625 :: real)"
  proof -
    have "ln (625::real) = 4 * ln 5" using ln_realpow [of 5 4] by simp
    then have "exp (- (4 * ln 5)) = exp (- ln (625::real))" by simp
    also have "\<dots> = 1 / 625" by (simp add: exp_minus)
    finally show ?thesis .
  qed
  have bf: "brute_force_loss scn_lp scn_labels scn_len scn_len 0 0 = - ln (3 / 5 ^ 4)"
    unfolding brute_force_loss_def
    by (simp add: scn_len_def numeral_2_eq_2 scn_lp_def e5)
  from scenario_loss [OF run sched pre s1] bf have "out = Scalar (- ln (3 / 5 ^ 4))" by simp
  with run have 2: "map_sum id fst
     (Transducer_forward Strict 1 2 3 5 2 scn_lp scn_labels scn_len scn_len 0 ''mean'' scn_sch [])
     = Inr (Scalar (- ln (3 / 5 ^ 4)))"
    by simp
  have 1: "length (alignments (scn_len 0 - 1) (scn_len 0)) \<noteq> 2"
    by (simp add: scn_len_def numeral_2_eq_2)
  have 3: "- ln (exp (path_logprob scn_lp scn_labels 0 0 0 0 [NoEmit, Emit, Emit]) +
         exp (path_logprob scn_lp scn_labels 0 0 0 0 [Emit, NoEmit, Emit]))
     = - ln (2 / 5 ^ 4)"
    by (simp add: scn_lp_def e5)
  have "(3 / 5 ^ 4 :: real) \<noteq> 2 / 5 ^ 4" by simp
  then have 4: "- ln (3 / 5 ^ 4) \<noteq> - ln (2 / 5 ^ 4 :: real)"
    by (simp add: ln_div)
  from 1 2 3 4 show ?thesis by blast
qed

end
